theory Spec2Isabelle
  imports Main "HOL-Library.Sublist" "HOL-Library.Multiset"
begin

section \<open>Strings\<close>

text \<open>
  A JavaScript string is modelled as a \<^typ>\<open>string\<close>, one \<^typ>\<open>char\<close> per code unit
  (patterns and paths over 8-bit characters). The methods below are the ones
  \<^verbatim>\<open>pattern-hierarchy.ts\<close> calls.
\<close>

definition str_includes :: "string \<Rightarrow> string \<Rightarrow> bool" where
  "str_includes s t = sublist t s"

definition startsWith :: "string \<Rightarrow> string \<Rightarrow> bool" where
  "startsWith s t = prefix t s"

definition endsWith :: "string \<Rightarrow> string \<Rightarrow> bool" where
  "endsWith s t = suffix t s"

text \<open>\<^verbatim>\<open>s.replace(pat, rep)\<close> with a string pattern: the first occurrence only.\<close>

fun replace :: "string \<Rightarrow> string \<Rightarrow> string \<Rightarrow> string" where
  "replace [] pat rep = (if pat = [] then rep else [])"
| "replace (c # cs) pat rep =
     (if prefix pat (c # cs) then rep @ drop (length pat) (c # cs)
      else c # replace cs pat rep)"

text \<open>
  \<^verbatim>\<open>s.split(sep)\<close>: the pieces between the occurrences of \<open>sep\<close>, scanned from the
  left; an empty separator splits into single code units.
\<close>

fun split_acc :: "string \<Rightarrow> string \<Rightarrow> string \<Rightarrow> string list" where
  "split_acc sep cur [] = [cur]"
| "split_acc sep cur (c # cs) =
     (if prefix sep (c # cs) then cur # split_acc sep [] (drop (length sep - 1) cs)
      else split_acc sep (cur @ [c]) cs)"

definition split :: "string \<Rightarrow> string \<Rightarrow> string list" where
  "split s sep = (if sep = [] then map (\<lambda>c. [c]) s else split_acc sep [] s)"

subsection \<open>The regular expressions of the pattern comparator\<close>

text \<open>
  \<^verbatim>\<open>\w\<close> is \<^verbatim>\<open>[A-Za-z0-9_]\<close>; \<^verbatim>\<open>.\<close> is any character but a line terminator; \<^verbatim>\<open>$\<close> is
  the end of the input (no flag is used). Every expression ends in \<^verbatim>\<open>(\w+)$\<close> or
  starts with \<^verbatim>\<open>^(\w+)\<close>, followed or preceded by a character that is not a word
  character, so the word group is the longest run of word characters at that end and
  the match is unique. Each matcher returns the captured group the code reads, or
  \<open>None\<close> for \<^verbatim>\<open>null\<close>.
\<close>

definition isWordChar :: "char \<Rightarrow> bool" where
  "isWordChar c =
     (let n = (of_char c :: nat)
      in (48 \<le> n \<and> n \<le> 57) \<or> (65 \<le> n \<and> n \<le> 90) \<or> n = 95 \<or> (97 \<le> n \<and> n \<le> 122))"

definition isLineTerminator :: "char \<Rightarrow> bool" where
  "isLineTerminator c = (c = CHR 0x0A \<or> c = CHR 0x0D)"

definition wordSuffix :: "string \<Rightarrow> string" where
  "wordSuffix s = rev (takeWhile isWordChar (rev s))"

definition beforeWordSuffix :: "string \<Rightarrow> string" where
  "beforeWordSuffix s = rev (dropWhile isWordChar (rev s))"

text \<open>\<^verbatim>\<open>/\*\.(\w+)$/\<close>, group 1.\<close>

definition match_star_ext :: "string \<Rightarrow> string option" where
  "match_star_ext s =
     (if wordSuffix s \<noteq> [] \<and> suffix ''*.'' (beforeWordSuffix s)
      then Some (wordSuffix s) else None)"

text \<open>\<^verbatim>\<open>/^(\w+)-\*/\<close>, group 1.\<close>

definition match_word_prefix :: "string \<Rightarrow> string option" where
  "match_word_prefix s =
     (if takeWhile isWordChar s \<noteq> [] \<and> prefix ''-*'' (dropWhile isWordChar s)
      then Some (takeWhile isWordChar s) else None)"

text \<open>\<^verbatim>\<open>/^\*\*\.(\w+)$/\<close>, group 1.\<close>

definition match_globstar_ext :: "string \<Rightarrow> string option" where
  "match_globstar_ext s =
     (if wordSuffix s \<noteq> [] \<and> beforeWordSuffix s = ''**.''
      then Some (wordSuffix s) else None)"

text \<open>\<^verbatim>\<open>/^\*\.(\w+)$/\<close>, group 1.\<close>

definition match_root_ext :: "string \<Rightarrow> string option" where
  "match_root_ext s =
     (if wordSuffix s \<noteq> [] \<and> beforeWordSuffix s = ''*.''
      then Some (wordSuffix s) else None)"

text \<open>\<^verbatim>\<open>/^([^/]+)\.(\w+)$/\<close>, group 2.\<close>

definition match_exact_file :: "string \<Rightarrow> string option" where
  "match_exact_file s =
     (let r = beforeWordSuffix s
      in if wordSuffix s \<noteq> [] \<and> suffix ''.'' r \<and> butlast r \<noteq> []
            \<and> CHR ''/'' \<notin> set (butlast r)
         then Some (wordSuffix s) else None)"

text \<open>
  \<^verbatim>\<open>/^.+\/([^/]+)\.(\w+)$/\<close>, group 2: group 1 has no slash, so the slash of the
  expression is the last one before the extension.
\<close>

definition match_subdir_file :: "string \<Rightarrow> string option" where
  "match_subdir_file s =
     (let r = beforeWordSuffix s;
          name = rev (takeWhile (\<lambda>c. c \<noteq> CHR ''/'') (rev (butlast r)));
          dir = rev (dropWhile (\<lambda>c. c \<noteq> CHR ''/'') (rev (butlast r)))
      in if wordSuffix s \<noteq> [] \<and> suffix ''.'' r \<and> name \<noteq> [] \<and> dir \<noteq> []
            \<and> butlast dir \<noteq> [] \<and> \<not> list_ex isLineTerminator (butlast dir)
         then Some (wordSuffix s) else None)"

text \<open>\<^verbatim>\<open>/^(.+)-\*\.(\w+)$/\<close>, group 2.\<close>

definition match_prefixed_ext :: "string \<Rightarrow> string option" where
  "match_prefixed_ext s =
     (let r = beforeWordSuffix s; a = take (length r - 3) r
      in if wordSuffix s \<noteq> [] \<and> suffix ''-*.'' r \<and> a \<noteq> [] \<and> \<not> list_ex isLineTerminator a
         then Some (wordSuffix s) else None)"

text \<open>\<^verbatim>\<open>/^(.+)\.(\w+)$/\<close>, group 2.\<close>

definition match_any_ext :: "string \<Rightarrow> string option" where
  "match_any_ext s =
     (let r = beforeWordSuffix s
      in if wordSuffix s \<noteq> [] \<and> suffix ''.'' r \<and> butlast r \<noteq> []
            \<and> \<not> list_ex isLineTerminator (butlast r)
         then Some (wordSuffix s) else None)"

section \<open>PatternHierarchy\<close>

definition isDirectoryChild :: "string \<Rightarrow> string \<Rightarrow> bool" where
  "isDirectoryChild child parent =
     (if str_includes child ''/'' \<and> str_includes parent ''/'' then
        (let childDir = hd (split child ''/**'');
             parentDir = hd (split parent ''/**'')
         in startsWith childDir (parentDir @ ''/'') \<and> childDir \<noteq> parentDir)
      else False)"

text \<open>
  The loop of \<^verbatim>\<open>areIncompatible\<close> over the positions both split patterns have: the first
  position where both parts are literal and differ returns true.
\<close>

fun partsConflict :: "string list \<Rightarrow> string list \<Rightarrow> bool" where
  "partsConflict (childPart # cs) (parentPart # ps) =
     (if \<not> str_includes childPart ''*'' \<and> \<not> str_includes parentPart ''*'' \<and> childPart \<noteq> parentPart
      then (if str_includes childPart parentPart \<or> str_includes parentPart childPart then True
            else True)
      else partsConflict cs ps)"
| "partsConflict _ _ = False"

definition areIncompatible :: "string \<Rightarrow> string \<Rightarrow> bool" where
  "areIncompatible child parent =
     (if (case (match_star_ext child, match_star_ext parent) of
            (Some childExt, Some parentExt) \<Rightarrow> childExt \<noteq> parentExt
          | _ \<Rightarrow> False)
      then True
      else if (case (match_word_prefix child, match_word_prefix parent) of
                 (Some childPrefix, Some parentPrefix) \<Rightarrow> childPrefix \<noteq> parentPrefix
               | _ \<Rightarrow> False)
      then True
      else partsConflict (split child ''/'') (split parent ''/''))"

definition isFilenamePattern :: "string \<Rightarrow> string \<Rightarrow> bool" where
  "isFilenamePattern child parent =
     (if (case match_globstar_ext parent of
            None \<Rightarrow> False
          | Some parentExt \<Rightarrow>
              match_root_ext child = Some parentExt
              \<or> (\<not> str_includes child ''*'' \<and> match_exact_file child = Some parentExt)
              \<or> (\<not> str_includes child ''*'' \<and> match_subdir_file child = Some parentExt))
      then True
      else if str_includes child ''/'' \<or> str_includes parent ''/'' then False
      else (case match_root_ext parent of
              None \<Rightarrow> False
            | Some parentExt \<Rightarrow>
                (case match_prefixed_ext child of
                   Some childExt \<Rightarrow> childExt = parentExt
                 | None \<Rightarrow>
                     (case match_any_ext child of
                        Some childExt \<Rightarrow>
                          if \<not> str_includes child ''*'' then childExt = parentExt else False
                      | None \<Rightarrow> False))))"

definition isMoreSpecific :: "string \<Rightarrow> string \<Rightarrow> bool" where
  "isMoreSpecific child parent =
     (if parent = ''**'' then child \<noteq> ''**''
      else if parent = ''*'' then
        \<not> str_includes child ''/'' \<and> child \<noteq> ''*'' \<and> \<not> str_includes child ''**''
      else if parent = ''**/*'' then
        (if child = ''**'' then False else (if child \<noteq> ''*/**'' then True else True))
      else if parent = ''*/**'' then
        str_includes child ''/'' \<and> child \<noteq> ''*'' \<and> child \<noteq> ''**'' \<and> child \<noteq> ''**/*''
      else if isFilenamePattern child parent then True
      else if endsWith parent ''/**'' \<and> startsWith child (replace parent ''/**'' ''/'') then True
      else False)"

definition isSubset :: "string \<Rightarrow> string \<Rightarrow> bool" where
  "isSubset child parent =
     (if child = parent then False
      else if child = [] \<or> parent = [] then False
      else if isDirectoryChild child parent then True
      else if areIncompatible child parent then False
      else isMoreSpecific child parent)"

section \<open>Cards and decks\<close>

text \<open>
  A \<^verbatim>\<open>Card\<close> has a path, a question and the scheduling data of the \<^verbatim>\<open>ts-fsrs\<close> library,
  which stays abstract (\<open>'a\<close>). A \<^verbatim>\<open>Deck\<close> is built from a pattern and its cards; its
  \<^verbatim>\<open>children\<close> field is mutable and shared, so it lives in the heap below.
\<close>

record 'a card =
  path :: string
  question :: string
  sr :: 'a

record 'a deck =
  pattern :: string
  cards :: "'a card list"

definition isChildOf :: "'a deck \<Rightarrow> 'a deck \<Rightarrow> bool" where
  "isChildOf this other =
     (if length (cards this) > length (cards other) then False
      else if length (cards this) > 0 \<and> length (cards other) > 0 then
        (let thisCardPaths = set (map path (cards this));
             otherCardPaths = set (map path (cards other));
             result = (\<forall>p \<in> thisCardPaths. p \<in> otherCardPaths)
         in if result \<and> length (cards this) = length (cards other)
            then isSubset (pattern this) (pattern other)
            else result)
      else isSubset (pattern this) (pattern other))"

section \<open>Sets of decks and the heap\<close>

text \<open>
  A JavaScript \<^verbatim>\<open>Set\<close> keeps its entries in insertion order; \<^verbatim>\<open>delete\<close> empties an entry
  in place, \<^verbatim>\<open>add\<close> appends unless the value is present, and a \<^verbatim>\<open>for ... of\<close> loop walks
  the entries by position, reading the set again at every step, so that it sees what
  the loop body adds and skips what it deletes. An entry is \<open>Some v\<close>, an emptied one
  \<open>None\<close>.
\<close>

type_synonym 'k js_set = "'k option list"

definition set_has :: "'k js_set \<Rightarrow> 'k \<Rightarrow> bool" where
  "set_has s v = (Some v \<in> set s)"

definition set_add :: "'k js_set \<Rightarrow> 'k \<Rightarrow> 'k js_set" where
  "set_add s v = (if set_has s v then s else s @ [Some v])"

definition set_delete :: "'k js_set \<Rightarrow> 'k \<Rightarrow> 'k js_set" where
  "set_delete s v = map (\<lambda>e. if e = Some v then None else e) s"

definition set_values :: "'k js_set \<Rightarrow> 'k list" where
  "set_values s = concat (map (\<lambda>e. case e of None \<Rightarrow> [] | Some v \<Rightarrow> [v]) s)"

text \<open>
  Decks are objects compared by identity: a deck is named by its position in the list
  of decks in creation order, and the heap holds the \<^verbatim>\<open>children\<close> set of each.
\<close>

type_synonym deck_id = nat
type_synonym heap = "deck_id js_set list"

definition children_add :: "heap \<Rightarrow> deck_id \<Rightarrow> deck_id \<Rightarrow> heap" where
  "children_add h this child = h[this := set_add (h ! this) child]"

definition children_delete :: "heap \<Rightarrow> deck_id \<Rightarrow> deck_id \<Rightarrow> heap" where
  "children_delete h this deck = h[this := set_delete (h ! this) deck]"

section \<open>Deck.addChild and Deck.buildDeckHierarchy\<close>

text \<open>
  \<^verbatim>\<open>addChild\<close> calls itself on other decks, and its loops run over sets that the calls
  may change, so the model takes fuel: \<open>addChild\<close> for the depth of the calls, each loop
  for its steps, and \<open>None\<close> when the fuel runs out (in the program: the call stack
  overflows or the loop does not end). \<open>addChild_nest\<close> is the first loop, at position
  \<open>i\<close> of \<^verbatim>\<open>this.children\<close> with the flag \<^verbatim>\<open>added\<close>; \<open>addChild_adopt\<close> is the second
  one, with the local set \<^verbatim>\<open>toRemove\<close>. Both take the method they call on other decks
  as the argument \<open>call\<close>.
\<close>

primrec addChild_nest ::
  "(heap \<Rightarrow> deck_id \<Rightarrow> deck_id \<Rightarrow> heap option) \<Rightarrow> 'a deck list \<Rightarrow> nat
     \<Rightarrow> heap \<Rightarrow> deck_id \<Rightarrow> deck_id \<Rightarrow> nat \<Rightarrow> bool \<Rightarrow> (heap \<times> bool) option"
where
  "addChild_nest call ds 0 h this child i added = None"
| "addChild_nest call ds (Suc n) h this child i added =
     (if i < length (h ! this) then
        (case (h ! this) ! i of
           None \<Rightarrow> addChild_nest call ds n h this child (Suc i) added
         | Some existing \<Rightarrow>
             if isChildOf (ds ! child) (ds ! existing) then
               (case call h existing child of
                  None \<Rightarrow> None
                | Some h' \<Rightarrow> addChild_nest call ds n h' this child (Suc i) True)
             else addChild_nest call ds n h this child (Suc i) added)
      else Some (h, added))"

primrec addChild_adopt ::
  "(heap \<Rightarrow> deck_id \<Rightarrow> deck_id \<Rightarrow> heap option) \<Rightarrow> 'a deck list \<Rightarrow> nat
     \<Rightarrow> heap \<Rightarrow> deck_id \<Rightarrow> deck_id \<Rightarrow> nat \<Rightarrow> deck_id js_set
     \<Rightarrow> (heap \<times> deck_id js_set) option"
where
  "addChild_adopt call ds 0 h this child i toRemove = None"
| "addChild_adopt call ds (Suc n) h this child i toRemove =
     (if i < length (h ! this) then
        (case (h ! this) ! i of
           None \<Rightarrow> addChild_adopt call ds n h this child (Suc i) toRemove
         | Some existing \<Rightarrow>
             if isChildOf (ds ! existing) (ds ! child) then
               (case call h child existing of
                  None \<Rightarrow> None
                | Some h' \<Rightarrow>
                    addChild_adopt call ds n h' this child (Suc i) (set_add toRemove existing))
             else addChild_adopt call ds n h this child (Suc i) toRemove)
      else Some (h, toRemove))"

primrec addChild :: "nat \<Rightarrow> 'a deck list \<Rightarrow> heap \<Rightarrow> deck_id \<Rightarrow> deck_id \<Rightarrow> heap option" where
  "addChild 0 ds h this child = None"
| "addChild (Suc n) ds h this child =
     (if set_has (h ! this) child then Some h
      else
        (case addChild_nest (addChild n ds) ds n h this child 0 False of
           None \<Rightarrow> None
         | Some (h1, added) \<Rightarrow>
             if added then Some h1
             else
               (case addChild_adopt (addChild n ds) ds n h1 this child 0 [] of
                  None \<Rightarrow> None
                | Some (h2, toRemove) \<Rightarrow>
                    Some (children_add
                            (fold (\<lambda>deck h'. children_delete h' this deck) (set_values toRemove) h2)
                            this child))))"

text \<open>
  \<^verbatim>\<open>buildDeckHierarchy\<close>: the set \<^verbatim>\<open>decks\<close> does not change while the two loops run, so
  they are recursions over its values. \<open>hierarchy_others\<close> is the inner loop for one
  \<^verbatim>\<open>deck\<close>, \<open>hierarchy_decks\<close> the outer one; the state is the heap and \<^verbatim>\<open>toRemove\<close>.
\<close>

fun hierarchy_others ::
  "nat \<Rightarrow> 'a deck list \<Rightarrow> deck_id \<Rightarrow> deck_id list \<Rightarrow> heap \<times> deck_id js_set
     \<Rightarrow> (heap \<times> deck_id js_set) option"
where
  "hierarchy_others fuel ds deck [] (h, toRemove) = Some (h, toRemove)"
| "hierarchy_others fuel ds deck (other # others) (h, toRemove) =
     (if deck = other then hierarchy_others fuel ds deck others (h, toRemove)
      else if isChildOf (ds ! deck) (ds ! other) then
        (case addChild fuel ds h other deck of
           None \<Rightarrow> None
         | Some h' \<Rightarrow> hierarchy_others fuel ds deck others (h', set_add toRemove deck))
      else hierarchy_others fuel ds deck others (h, toRemove))"

fun hierarchy_decks ::
  "nat \<Rightarrow> 'a deck list \<Rightarrow> deck_id list \<Rightarrow> deck_id list \<Rightarrow> heap \<times> deck_id js_set
     \<Rightarrow> (heap \<times> deck_id js_set) option"
where
  "hierarchy_decks fuel ds all [] st = Some st"
| "hierarchy_decks fuel ds all (deck # rest) st =
     (case hierarchy_others fuel ds deck all st of
        None \<Rightarrow> None
      | Some st' \<Rightarrow> hierarchy_decks fuel ds all rest st')"

text \<open>
  The decks passed in are new objects (\<^verbatim>\<open>buildDecks\<close> is the only caller), each with an
  empty \<^verbatim>\<open>children\<close> set. The result is the set \<^verbatim>\<open>decks\<close> after the removals (the top
  level) and the heap.
\<close>

definition buildDeckHierarchy :: "nat \<Rightarrow> 'a deck list \<Rightarrow> (deck_id js_set \<times> heap) option" where
  "buildDeckHierarchy fuel ds =
     (let ids = [0..<length ds] in
      case hierarchy_decks fuel ds ids ids (replicate (length ds) [], []) of
        None \<Rightarrow> None
      | Some (h, toRemove) \<Rightarrow>
          Some (fold (\<lambda>deck s. set_delete s deck) (set_values toRemove) (map Some ids), h))"

text \<open>The top-level decks and the children of a deck, as lists of identities.\<close>

definition roots_of :: "(deck_id js_set \<times> heap) \<Rightarrow> deck_id list" where
  "roots_of r = set_values (fst r)"

definition children_of :: "(deck_id js_set \<times> heap) \<Rightarrow> deck_id \<Rightarrow> deck_id list" where
  "children_of r d = set_values (snd r ! d)"

text \<open>
  The decks recorded below a deck: the pairs (parent, child) of the heap, and their
  transitive closure for nesting at any depth.
\<close>

definition edge_list :: "heap \<Rightarrow> (deck_id \<times> deck_id) list" where
  "edge_list h = concat (map (\<lambda>p. map (\<lambda>c. (p, c)) (set_values (h ! p))) [0..<length h])"

definition nested_under :: "(deck_id js_set \<times> heap) \<Rightarrow> deck_id \<Rightarrow> deck_id \<Rightarrow> bool" where
  "nested_under r a b = ((b, a) \<in> (set (edge_list (snd r)))\<^sup>+)"

section \<open>Deck.buildDecks\<close>

datatype ValidationErrorType =
  NON_STRING_FIELD_TYPE | MALFORMED_ENTRY | UNKNOWN_FIELD | MISSING_REQUIRED_FIELD
  | INVALID_DATE_FORMAT | NON_NUMERIC_VALUE | INVALID_VALUE_BOUNDS | FLOAT_VALUE_NOT_ALLOWED
  | INVALID_STATE_VALUE | FILE_SYSTEM_ERROR | ALGORITHM_ERROR

record ValidationError =
  filePath :: "string option"
  errorType :: ValidationErrorType
  field :: "string option"
  errorValue :: "string option"
  message :: "string option"
  suggestion :: "string option"

record 'a ValidationResult =
  errors :: "ValidationError list"
  resultCard :: "'a option"

record TFile =
  file_path :: string
  basename :: string
  extension :: string

record 'r FrontMatterCache =
  flashcard_question :: "string option"
  spaced_repetition :: "'r option"

record FileFlashcardsSettings =
  include_patterns :: "string list"
  exclude_patterns :: "string list"
  maxPerDay :: int
  showBadge :: bool

text \<open>
  \<^verbatim>\<open>CardStorage.fromFrontmatter\<close>. The validator \<^verbatim>\<open>validateAndParseFrontmatter\<close> and the
  library's \<^verbatim>\<open>createEmptyCard\<close> are parameters: what follows holds for every validator.
\<close>

definition fromFrontmatter ::
  "('r option \<Rightarrow> 'a ValidationResult) \<Rightarrow> 'a \<Rightarrow> 'r option \<Rightarrow> ValidationError list + 'a"
where
  "fromFrontmatter validateAndParseFrontmatter createEmptyCard srData =
     (let result = validateAndParseFrontmatter srData
      in if length (errors result) \<noteq> 0 then Inl (errors result)
         else Inr (case resultCard result of Some c \<Rightarrow> c | None \<Rightarrow> createEmptyCard))"

text \<open>\<^verbatim>\<open>Card.init\<close>: an empty question override is falsy, so the file's name is used.\<close>

definition Card_init ::
  "('r option \<Rightarrow> 'a ValidationResult) \<Rightarrow> 'a \<Rightarrow> TFile \<Rightarrow> 'r FrontMatterCache option
     \<Rightarrow> ValidationError list + 'a card"
where
  "Card_init validateAndParseFrontmatter createEmptyCard file frontmatter =
     (let path = file_path file;
          question =
            (case (case frontmatter of None \<Rightarrow> None | Some fm \<Rightarrow> flashcard_question fm) of
               Some q \<Rightarrow> if q \<noteq> [] then q else basename file
             | None \<Rightarrow> basename file);
          result =
            fromFrontmatter validateAndParseFrontmatter createEmptyCard
              (case frontmatter of None \<Rightarrow> None | Some fm \<Rightarrow> spaced_repetition fm)
      in case result of
           Inl errs \<Rightarrow> Inl (map (\<lambda>err. err\<lparr>filePath := Some path\<rparr>) errs)
         | Inr c \<Rightarrow> Inr \<lparr>path = path, question = question, sr = c\<rparr>)"

text \<open>\<^verbatim>\<open>Deck.filterFiles\<close>; the glob matcher \<^verbatim>\<open>minimatch\<close> is a parameter.\<close>

definition filterFiles ::
  "(string \<Rightarrow> string \<Rightarrow> bool) \<Rightarrow> TFile list \<Rightarrow> string list \<Rightarrow> string list \<Rightarrow> TFile list"
where
  "filterFiles minimatch allFiles includePatterns excludePatterns =
     (if length includePatterns = 0 then []
      else
        filter
          (\<lambda>file.
             if extension file \<noteq> ''md'' then False
             else
               (let path = file_path file;
                    included = list_ex (\<lambda>pattern. minimatch path pattern) includePatterns
                in if \<not> included then False
                   else
                     (let excluded = list_ex (\<lambda>pattern. minimatch path pattern) excludePatterns
                      in \<not> excluded)))
          allFiles)"

text \<open>
  The body of \<^verbatim>\<open>buildDecks\<close>: \<open>buildDecks_files\<close> is the \<^verbatim>\<open>forEach\<close> over the files of one
  pattern, with the state \<^verbatim>\<open>cards\<close> (\<open>cs\<close>), \<^verbatim>\<open>allErrors\<close>, \<^verbatim>\<open>errorProcessedFiles\<close>;
  \<open>buildDecks_patterns\<close> is the loop over \<^verbatim>\<open>settings.include\<close>, with the decks created so
  far in creation order. \<open>init\<close> is \<^verbatim>\<open>Card.init\<close> on a file and its cached frontmatter.
\<close>

fun buildDecks_files ::
  "(TFile \<Rightarrow> ValidationError list + 'a card) \<Rightarrow> TFile list
     \<Rightarrow> 'a card list \<times> ValidationError list \<times> string js_set
     \<Rightarrow> 'a card list \<times> ValidationError list \<times> string js_set"
where
  "buildDecks_files init [] st = st"
| "buildDecks_files init (file # files) (cs, allErrors, errorProcessedFiles) =
     (if set_has errorProcessedFiles (file_path file) then
        buildDecks_files init files (cs, allErrors, errorProcessedFiles)
      else
        (case init file of
           Inl result \<Rightarrow>
             buildDecks_files init files
               (cs, allErrors @ result, set_add errorProcessedFiles (file_path file))
         | Inr result \<Rightarrow>
             buildDecks_files init files (cs @ [result], allErrors, errorProcessedFiles)))"

fun buildDecks_patterns ::
  "(string \<Rightarrow> string \<Rightarrow> bool) \<Rightarrow> (TFile \<Rightarrow> ValidationError list + 'a card) \<Rightarrow> TFile list
     \<Rightarrow> string list \<Rightarrow> string list
     \<Rightarrow> 'a deck list \<times> ValidationError list \<times> string js_set
     \<Rightarrow> 'a deck list \<times> ValidationError list \<times> string js_set"
where
  "buildDecks_patterns minimatch init allFiles exclude [] st = st"
| "buildDecks_patterns minimatch init allFiles exclude (pat # pats)
       (decks, allErrors, errorProcessedFiles) =
     (let filteredFiles = filterFiles minimatch allFiles [pat] exclude;
          (cs, allErrors', errorProcessedFiles') =
            buildDecks_files init filteredFiles ([], allErrors, errorProcessedFiles);
          deck = \<lparr>pattern = pat, cards = cs\<rparr>
      in buildDecks_patterns minimatch init allFiles exclude pats
           (decks @ [deck], allErrors', errorProcessedFiles'))"

text \<open>
  \<^verbatim>\<open>buildDecks\<close> returns the errors (\<open>Inl\<close>) or the decks (\<open>Inr\<close>: the deck objects, the
  top-level set and the heap of their children); \<open>None\<close> when the hierarchy build runs
  out of fuel.
\<close>

definition buildDecks ::
  "nat \<Rightarrow> (string \<Rightarrow> string \<Rightarrow> bool) \<Rightarrow> (TFile \<Rightarrow> 'r FrontMatterCache option)
     \<Rightarrow> ('r option \<Rightarrow> 'a ValidationResult) \<Rightarrow> 'a \<Rightarrow> TFile list \<Rightarrow> FileFlashcardsSettings
     \<Rightarrow> (ValidationError list + 'a deck list \<times> deck_id js_set \<times> heap) option"
where
  "buildDecks fuel minimatch metadataCache validateAndParseFrontmatter createEmptyCard
       allFiles settings =
     (let init = (\<lambda>file. Card_init validateAndParseFrontmatter createEmptyCard file
                            (metadataCache file));
          (decks, allErrors, errorProcessedFiles) =
            buildDecks_patterns minimatch init allFiles (exclude_patterns settings)
              (include_patterns settings) ([], [], [])
      in case buildDeckHierarchy fuel decks of
           None \<Rightarrow> None
         | Some topLevel \<Rightarrow>
             Some (if length allErrors = 0 then Inr (decks, topLevel) else Inl allErrors))"

section \<open>The recorded parent-child pairs\<close>

text \<open>
  \<open>edges h\<close> are the pairs (parent, child) the heap records, \<open>child_rel ds\<close> the pairs
  that \<open>isChildOf\<close> relates among the decks \<open>ds\<close>. A heap is \<open>heap_ok\<close> when it has one
  \<^verbatim>\<open>children\<close> set per deck and records only pairs of \<open>child_rel\<close>.
\<close>

definition edges :: "heap \<Rightarrow> (deck_id \<times> deck_id) set" where
  "edges h = {(p, c). p < length h \<and> Some c \<in> set (h ! p)}"

definition child_rel :: "'a deck list \<Rightarrow> (deck_id \<times> deck_id) set" where
  "child_rel ds = {(p, c). p < length ds \<and> c < length ds \<and> isChildOf (ds ! c) (ds ! p)}"

definition heap_ok :: "'a deck list \<Rightarrow> heap \<Rightarrow> bool" where
  "heap_ok ds h = (length h = length ds \<and> edges h \<subseteq> child_rel ds)"

text \<open>
  \<open>ranked ds rank\<close>: every deck has a smaller rank than the decks it is a child of, so
  that \<open>isChildOf\<close> has no cycle among the decks \<open>ds\<close>.
\<close>

definition ranked :: "'a deck list \<Rightarrow> (deck_id \<Rightarrow> nat) \<Rightarrow> bool" where
  "ranked ds rank = (\<forall>p c. (p, c) \<in> child_rel ds \<longrightarrow> rank c < rank p)"

text \<open>
  The forest as pairs of decks rather than of identities, to compare builds of the same
  decks in different orders: the decks at top level, and the pairs (deck, deck it is
  nested under, at any depth).
\<close>

definition root_decks :: "'a deck list \<Rightarrow> (deck_id js_set \<times> heap) \<Rightarrow> 'a deck list" where
  "root_decks ds r = map (\<lambda>d. ds ! d) (roots_of r)"

definition nested_decks :: "'a deck list \<Rightarrow> (deck_id js_set \<times> heap) \<Rightarrow> ('a deck \<times> 'a deck) set" where
  "nested_decks ds r =
     {(ds ! a, ds ! b) | a b. a < length ds \<and> b < length ds \<and> nested_under r a b}"

text \<open>\<open>isChildOf\<close> as a relation (parent, child) on a set of decks.\<close>

definition deck_rel :: "'a deck set \<Rightarrow> ('a deck \<times> 'a deck) set" where
  "deck_rel S = {(p, c). p \<in> S \<and> c \<in> S \<and> isChildOf c p}"

text \<open>
  The \<^verbatim>\<open>children\<close> sets of a heap are an \<open>antichain\<close> when no deck of such a set is a
  child of another deck of the same set. \<open>cover ds\<close> are the pairs (parent, child) of
  \<open>child_rel\<close> with no deck in between: the child is a child of the parent and of no
  other child of the parent. \<open>deck_cover\<close> is the same relation on the decks themselves.
\<close>

definition antichain :: "'a deck list \<Rightarrow> heap \<Rightarrow> bool" where
  "antichain ds h =
     (\<forall>p c c'. (p, c) \<in> edges h \<and> (p, c') \<in> edges h \<longrightarrow> \<not> isChildOf (ds ! c) (ds ! c'))"

definition cover :: "'a deck list \<Rightarrow> (deck_id \<times> deck_id) set" where
  "cover ds =
     {(p, c). (p, c) \<in> child_rel ds \<and> \<not> (\<exists>m. (p, m) \<in> child_rel ds \<and> (m, c) \<in> child_rel ds)}"

definition deck_cover :: "'a deck set \<Rightarrow> ('a deck \<times> 'a deck) set" where
  "deck_cover S =
     {(p, c). (p, c) \<in> deck_rel S \<and> \<not> (\<exists>m. (p, m) \<in> deck_rel S \<and> (m, c) \<in> deck_rel S)}"

text \<open>
  The \<^verbatim>\<open>children\<close> sets of a forest as decks rather than identities: the pairs (deck,
  deck in its \<^verbatim>\<open>children\<close> set) of the whole forest, and the decks in the \<^verbatim>\<open>children\<close>
  set of the deck \<open>p\<close>, in the order of the set.
\<close>

definition child_decks :: "'a deck list \<Rightarrow> (deck_id js_set \<times> heap) \<Rightarrow> ('a deck \<times> 'a deck) set" where
  "child_decks ds r = {(ds ! p, ds ! c) | p c. p < length ds \<and> c \<in> set (children_of r p)}"

definition child_decks_of :: "'a deck list \<Rightarrow> (deck_id js_set \<times> heap) \<Rightarrow> deck_id \<Rightarrow> 'a deck list" where
  "child_decks_of ds r p = map (\<lambda>c. ds ! c) (children_of r p)"

text \<open>A \<^verbatim>\<open>Set\<close> holds a value once: no \<^verbatim>\<open>children\<close> set of the heap lists a deck twice.\<close>

definition heap_distinct :: "heap \<Rightarrow> bool" where
  "heap_distinct h = (\<forall>p < length h. distinct (set_values (h ! p)))"

text \<open>
  What \<^verbatim>\<open>allErrors\<close> and \<^verbatim>\<open>errorProcessedFiles\<close> hold after the files \<open>visited\<close> went
  through the loop: the errors of the failing files among them, each file once, and
  the paths of these files.
\<close>

definition errors_logged ::
  "(TFile \<Rightarrow> ValidationError list + 'a card) \<Rightarrow> TFile set
     \<Rightarrow> ValidationError list \<Rightarrow> string js_set \<Rightarrow> bool"
where
  "errors_logged init visited allErrors errorProcessedFiles =
     (\<exists>fs. distinct (map file_path fs)
           \<and> set fs = {f \<in> visited. isl (init f)}
           \<and> allErrors = concat (map (\<lambda>f. projl (init f)) fs)
           \<and> set (set_values errorProcessedFiles) = file_path ` set fs)"

section \<open>Example inputs\<close>

definition emptyDeck :: "string \<Rightarrow> unit deck" where
  "emptyDeck p = \<lparr>pattern = p, cards = []\<rparr>"

definition cardAt :: "string \<Rightarrow> unit card" where
  "cardAt p = \<lparr>path = p, question = p, sr = ()\<rparr>"

definition deckOf :: "string \<Rightarrow> string list \<Rightarrow> unit deck" where
  "deckOf p paths = \<lparr>pattern = p, cards = map cardAt paths\<rparr>"

text \<open>The five patterns of the forest scenario, with no cards.\<close>

definition forest_decks :: "unit deck list" where
  "forest_decks = map emptyDeck [''**'', ''**/*'', ''*'', ''Work/**'', ''README.md'']"

text \<open>The same five decks in the opposite order.\<close>

definition forest_decks' :: "unit deck list" where
  "forest_decks' = map emptyDeck [''README.md'', ''Work/**'', ''*'', ''**/*'', ''**'']"

text \<open>Two patterns that the comparator puts below each other.\<close>

definition cycle_decks :: "unit deck list" where
  "cycle_decks = map emptyDeck [''**/*'', ''**/**'']"

text \<open>
  A vault with \<open>Work/a.md\<close>, \<open>Work/b.md\<close> and \<open>Home/a.md\<close>: the deck of the single file
  \<open>Work/a.md\<close> holds a subset of the cards of two decks that do not contain each other.
\<close>

definition two_parent_decks :: "unit deck list" where
  "two_parent_decks =
     [deckOf ''Work/**'' [''Work/a.md'', ''Work/b.md''],
      deckOf ''**/a.md'' [''Work/a.md'', ''Home/a.md''],
      deckOf ''Work/a.md'' [''Work/a.md'']]"

text \<open>
  Two decks with the same single card whose patterns are unrelated, and a deck that
  contains both.
\<close>

definition tie_decks :: "unit deck list" where
  "tie_decks =
     [deckOf ''*.md'' [''a.md''],
      deckOf ''a*'' [''a.md''],
      deckOf ''**'' [''a.md'', ''Work/b.md'']]"

text \<open>
  A vault with \<open>Work/a.md\<close>, \<open>Home/b.md\<close> and \<open>c.md\<close>, and four include patterns in two
  orders. \<open>Work/Math/**\<close> matches no file; it is below \<open>Work/**\<close> and \<open>**\<close> as a pattern,
  but not below \<open>*/*.md\<close>, which holds the cards of \<open>Work/**\<close>.
\<close>

definition order_decks :: "unit deck list" where
  "order_decks =
     [emptyDeck ''Work/Math/**'',
      deckOf ''*/*.md'' [''Work/a.md'', ''Home/b.md''],
      deckOf ''Work/**'' [''Work/a.md''],
      deckOf ''**'' [''Work/a.md'', ''Home/b.md'', ''c.md'']]"

definition order_decks' :: "unit deck list" where
  "order_decks' =
     [deckOf ''**'' [''Work/a.md'', ''Home/b.md'', ''c.md''],
      deckOf ''Work/**'' [''Work/a.md''],
      emptyDeck ''Work/Math/**'',
      deckOf ''*/*.md'' [''Work/a.md'', ''Home/b.md'']]"

text \<open>
  Three include patterns that match no file: the first two are put below each other,
  the third one below both.
\<close>

definition overflow_decks :: "unit deck list" where
  "overflow_decks = map emptyDeck [''**/*'', ''**/**'', ''**/x'']"

definition overflow_settings :: FileFlashcardsSettings where
  "overflow_settings =
     \<lparr>include_patterns = [''**/*'', ''**/**'', ''**/x''], exclude_patterns = [],
      maxPerDay = 0, showBadge = True\<rparr>"

section \<open>More fuel does not change a result\<close>

lemma addChild_nest_mono:
  assumes call: "\<And>h a b r. call h a b = Some r \<Longrightarrow> call' h a b = Some r"
  shows "addChild_nest call ds n h this child i added = Some r \<Longrightarrow> n \<le> m
    \<Longrightarrow> addChild_nest call' ds m h this child i added = Some r"
proof (induction n arbitrary: m h i added)
  case 0
  then show ?case by simp
next
  case (Suc n)
  then obtain m' where m: "m = Suc m'" and le: "n \<le> m'"
    by (cases m) auto
  show ?case
    using Suc.prems(1) Suc.IH[OF _ le] call unfolding m
    by (auto split: if_splits option.splits)
qed

lemma addChild_adopt_mono:
  assumes call: "\<And>h a b r. call h a b = Some r \<Longrightarrow> call' h a b = Some r"
  shows "addChild_adopt call ds n h this child i rm = Some r \<Longrightarrow> n \<le> m
    \<Longrightarrow> addChild_adopt call' ds m h this child i rm = Some r"
proof (induction n arbitrary: m h i rm)
  case 0
  then show ?case by simp
next
  case (Suc n)
  then obtain m' where m: "m = Suc m'" and le: "n \<le> m'"
    by (cases m) auto
  show ?case
    using Suc.prems(1) Suc.IH[OF _ le] call unfolding m
    by (auto split: if_splits option.splits)
qed

lemma addChild_mono:
  "addChild n ds h this child = Some r \<Longrightarrow> n \<le> m \<Longrightarrow> addChild m ds h this child = Some r"
proof (induction n arbitrary: m h this child r)
  case 0
  then show ?case by simp
next
  case (Suc n)
  then obtain m' where m: "m = Suc m'" and le: "n \<le> m'"
    by (cases m) auto
  have call: "\<And>h a b r. addChild n ds h a b = Some r \<Longrightarrow> addChild m' ds h a b = Some r"
    using Suc.IH le by blast
  show ?case
  proof (cases "set_has (h ! this) child")
    case True
    then show ?thesis using Suc.prems(1) by (simp add: m)
  next
    case False
    from Suc.prems(1) False obtain h1 added where
      n1: "addChild_nest (addChild n ds) ds n h this child 0 False = Some (h1, added)"
      by (auto split: option.splits)
    have m1: "addChild_nest (addChild m' ds) ds m' h this child 0 False = Some (h1, added)"
      using addChild_nest_mono[OF call n1 le] .
    show ?thesis
    proof (cases added)
      case True
      then show ?thesis using Suc.prems(1) False n1 m1 by (simp add: m)
    next
      case nadded: False
      from Suc.prems(1) False n1 nadded obtain h2 rm where
        n2: "addChild_adopt (addChild n ds) ds n h1 this child 0 [] = Some (h2, rm)"
        by (auto split: option.splits)
      have m2: "addChild_adopt (addChild m' ds) ds m' h1 this child 0 [] = Some (h2, rm)"
        using addChild_adopt_mono[OF call n2 le] .
      show ?thesis using Suc.prems(1) False n1 m1 nadded n2 m2 by (simp add: m)
    qed
  qed
qed

lemma hierarchy_others_mono:
  "hierarchy_others n ds deck others st = Some r \<Longrightarrow> n \<le> m
     \<Longrightarrow> hierarchy_others m ds deck others st = Some r"
proof (induction others arbitrary: st)
  case Nil
  then show ?case by (cases st) auto
next
  case (Cons other others)
  then show ?case
    by (cases st) (auto split: if_splits option.splits dest: addChild_mono[where m = m])
qed

lemma hierarchy_decks_mono:
  "hierarchy_decks n ds all rest st = Some r \<Longrightarrow> n \<le> m
     \<Longrightarrow> hierarchy_decks m ds all rest st = Some r"
proof (induction rest arbitrary: st)
  case Nil
  then show ?case by simp
next
  case (Cons deck rest)
  then show ?case
    by (auto split: option.splits dest: hierarchy_others_mono[where m = m])
qed

lemma buildDeckHierarchy_mono:
  "buildDeckHierarchy n ds = Some r \<Longrightarrow> n \<le> m \<Longrightarrow> buildDeckHierarchy m ds = Some r"
  unfolding buildDeckHierarchy_def Let_def
  by (auto split: option.splits dest: hierarchy_decks_mono[where m = m])

lemma buildDeckHierarchy_fuel:
  assumes "buildDeckHierarchy n ds = Some r" and "buildDeckHierarchy m ds = Some r'"
  shows "r' = r"
proof -
  have "buildDeckHierarchy (max n m) ds = Some r"
    using assms(1) by (rule buildDeckHierarchy_mono) simp
  moreover have "buildDeckHierarchy (max n m) ds = Some r'"
    using assms(2) by (rule buildDeckHierarchy_mono) simp
  ultimately show ?thesis by simp
qed

section \<open>The heap records only pairs related by isChildOf\<close>

lemma set_values_iff: "v \<in> set (set_values s) \<longleftrightarrow> Some v \<in> set s"
  by (induction s) (auto simp: set_values_def split: option.splits)

lemma set_edge_list: "set (edge_list h) = edges h"
  by (auto simp: edge_list_def edges_def set_values_iff)

lemma length_children_add [simp]: "length (children_add h t c) = length h"
  by (simp add: children_add_def)

lemma length_children_delete [simp]: "length (children_delete h t d) = length h"
  by (simp add: children_delete_def)

lemma edges_children_add:
  assumes "t < length h"
  shows "edges (children_add h t c) = insert (t, c) (edges h)"
proof -
  have "\<And>p. p < length h \<Longrightarrow>
      set (children_add h t c ! p) = (if p = t then insert (Some c) (set (h ! t)) else set (h ! p))"
    by (auto simp: children_add_def set_add_def set_has_def nth_list_update)
  then show ?thesis
    using assms by (auto simp: edges_def split: if_splits)
qed

lemma edges_children_delete:
  "edges (children_delete h t d) = edges h - {(t, d)}"
proof -
  have "\<And>p. p < length h \<Longrightarrow>
      set (children_delete h t d ! p)
        = (if p = t then (\<lambda>e. if e = Some d then None else e) ` set (h ! t) else set (h ! p))"
    by (auto simp: children_delete_def set_delete_def nth_list_update)
  then show ?thesis
    by (auto simp: edges_def split: if_splits)
qed

lemma length_fold_delete [simp]:
  "length (fold (\<lambda>deck h'. children_delete h' t deck) xs h) = length h"
  by (induction xs arbitrary: h) auto

lemma edges_fold_delete:
  "edges (fold (\<lambda>deck h'. children_delete h' t deck) xs h) = edges h - {t} \<times> set xs"
  by (induction xs arbitrary: h) (auto simp: edges_children_delete)

lemma edges_nth: "i < length (h ! t) \<Longrightarrow> t < length h \<Longrightarrow> (h ! t) ! i = Some e \<Longrightarrow> (t, e) \<in> edges h"
  by (auto simp: edges_def) (metis nth_mem)

lemma heap_ok_edge: "heap_ok ds h \<Longrightarrow> (p, c) \<in> edges h \<Longrightarrow> c < length ds \<and> p < length ds \<and> isChildOf (ds ! c) (ds ! p)"
  by (auto simp: heap_ok_def child_rel_def)

lemma addChild_nest_ok:
  assumes call: "\<And>h a b h'. heap_ok ds h \<Longrightarrow> (a, b) \<in> child_rel ds \<Longrightarrow> call h a b = Some h' \<Longrightarrow> heap_ok ds h'"
  shows "addChild_nest call ds n h this child i added = Some (h', added') \<Longrightarrow> heap_ok ds h
    \<Longrightarrow> this < length ds \<Longrightarrow> child < length ds \<Longrightarrow> heap_ok ds h'"
proof (induction n arbitrary: h i added)
  case 0
  then show ?case by simp
next
  case (Suc n)
  show ?case
  proof (cases "i < length (h ! this)")
    case False
    then show ?thesis using Suc.prems by simp
  next
    case True
    have len: "this < length h" using Suc.prems by (simp add: heap_ok_def)
    show ?thesis
    proof (cases "(h ! this) ! i")
      case None
      then show ?thesis using Suc True by simp
    next
      case (Some existing)
      have ex: "existing < length ds"
        using heap_ok_edge[OF Suc.prems(2) edges_nth[OF True len Some]] by simp
      show ?thesis
      proof (cases "isChildOf (ds ! child) (ds ! existing)")
        case False
        then show ?thesis using Suc True Some by simp
      next
        case isc: True
        then obtain h1 where c1: "call h existing child = Some h1"
          and r1: "addChild_nest call ds n h1 this child (Suc i) True = Some (h', added')"
          using Suc.prems(1) True Some by (auto split: option.splits)
        have "(existing, child) \<in> child_rel ds"
          using isc ex Suc.prems by (simp add: child_rel_def)
        then have "heap_ok ds h1" using call Suc.prems(2) c1 by blast
        then show ?thesis using Suc.IH[OF r1] Suc.prems by simp
      qed
    qed
  qed
qed

lemma addChild_adopt_ok:
  assumes call: "\<And>h a b h'. heap_ok ds h \<Longrightarrow> (a, b) \<in> child_rel ds \<Longrightarrow> call h a b = Some h' \<Longrightarrow> heap_ok ds h'"
  shows "addChild_adopt call ds n h this child i rm = Some (h', rm') \<Longrightarrow> heap_ok ds h
    \<Longrightarrow> this < length ds \<Longrightarrow> child < length ds \<Longrightarrow> heap_ok ds h'"
proof (induction n arbitrary: h i rm)
  case 0
  then show ?case by simp
next
  case (Suc n)
  show ?case
  proof (cases "i < length (h ! this)")
    case False
    then show ?thesis using Suc.prems by simp
  next
    case True
    have len: "this < length h" using Suc.prems by (simp add: heap_ok_def)
    show ?thesis
    proof (cases "(h ! this) ! i")
      case None
      then show ?thesis using Suc True by simp
    next
      case (Some existing)
      have ex: "existing < length ds"
        using heap_ok_edge[OF Suc.prems(2) edges_nth[OF True len Some]] by simp
      show ?thesis
      proof (cases "isChildOf (ds ! existing) (ds ! child)")
        case False
        then show ?thesis using Suc True Some by simp
      next
        case isc: True
        then obtain h1 where c1: "call h child existing = Some h1"
          and r1: "addChild_adopt call ds n h1 this child (Suc i) (set_add rm existing) = Some (h', rm')"
          using Suc.prems(1) True Some by (auto split: option.splits)
        have "(child, existing) \<in> child_rel ds"
          using isc ex Suc.prems by (simp add: child_rel_def)
        then have "heap_ok ds h1" using call Suc.prems(2) c1 by blast
        then show ?thesis using Suc.IH[OF r1] Suc.prems by simp
      qed
    qed
  qed
qed

lemma heap_ok_finish:
  assumes "heap_ok ds h" "(this, child) \<in> child_rel ds"
  shows "heap_ok ds (children_add (fold (\<lambda>deck h'. children_delete h' this deck) xs h) this child)"
proof -
  have "this < length h" using assms by (simp add: heap_ok_def child_rel_def)
  then show ?thesis
    using assms by (auto simp: heap_ok_def edges_children_add edges_fold_delete)
qed

lemma addChild_ok:
  "addChild n ds h this child = Some h' \<Longrightarrow> heap_ok ds h \<Longrightarrow> (this, child) \<in> child_rel ds
     \<Longrightarrow> heap_ok ds h'"
proof (induction n arbitrary: h this child h')
  case 0
  then show ?case by simp
next
  case (Suc n)
  have call: "\<And>h a b h'. heap_ok ds h \<Longrightarrow> (a, b) \<in> child_rel ds
      \<Longrightarrow> addChild n ds h a b = Some h' \<Longrightarrow> heap_ok ds h'"
    using Suc.IH by blast
  have ids: "this < length ds" "child < length ds"
    using Suc.prems(3) by (simp_all add: child_rel_def)
  show ?case
  proof (cases "set_has (h ! this) child")
    case True
    then show ?thesis using Suc.prems by simp
  next
    case False
    then obtain h1 added where
      n1: "addChild_nest (addChild n ds) ds n h this child 0 False = Some (h1, added)"
      using Suc.prems(1) by (auto split: option.splits)
    have ok1: "heap_ok ds h1"
      using addChild_nest_ok[OF call n1 Suc.prems(2) ids] .
    show ?thesis
    proof (cases added)
      case True
      then show ?thesis using Suc.prems(1) False n1 ok1 by simp
    next
      case nadded: False
      then obtain h2 rm where
        n2: "addChild_adopt (addChild n ds) ds n h1 this child 0 [] = Some (h2, rm)"
        using Suc.prems(1) False n1 by (auto split: option.splits)
      have ok2: "heap_ok ds h2"
        using addChild_adopt_ok[OF call n2 ok1 ids] .
      have "h' = children_add (fold (\<lambda>deck h'. children_delete h' this deck) (set_values rm) h2) this child"
        using Suc.prems(1) False n1 nadded n2 by simp
      then show ?thesis using heap_ok_finish[OF ok2 Suc.prems(3)] by simp
    qed
  qed
qed

section \<open>What the build leaves at top level\<close>

lemma set_values_set_add: "set (set_values (set_add s v)) = insert v (set (set_values s))"
  by (auto simp: set_values_iff set_add_def set_has_def)

lemma set_values_map_Some [simp]: "set_values (map Some xs) = xs"
  by (induction xs) (auto simp: set_values_def)

lemma set_values_set_delete: "set_values (set_delete s d) = filter (\<lambda>v. v \<noteq> d) (set_values s)"
  by (induction s) (auto simp: set_values_def set_delete_def split: option.splits)

lemma set_values_fold_delete:
  "set_values (fold (\<lambda>deck s. set_delete s deck) xs s) = filter (\<lambda>v. v \<notin> set xs) (set_values s)"
proof (induction xs arbitrary: s)
  case Nil
  then show ?case by simp
next
  case (Cons x xs)
  have "(\<lambda>v. v \<notin> set xs \<and> v \<noteq> x) = (\<lambda>v. v \<noteq> x \<and> v \<notin> set xs)" by auto
  then show ?case using Cons by (simp add: set_values_set_delete)
qed

lemma isSubset_irrefl [simp]: "\<not> isSubset p p"
  by (simp add: isSubset_def)

lemma isChildOf_irrefl [simp]: "\<not> isChildOf d d"
  by (simp add: isChildOf_def Let_def)

lemma hierarchy_others_ok:
  "hierarchy_others fuel ds deck others (h, rm) = Some (h', rm') \<Longrightarrow> heap_ok ds h
   \<Longrightarrow> deck < length ds \<Longrightarrow> \<forall>other \<in> set others. other < length ds
   \<Longrightarrow> heap_ok ds h'
       \<and> set (set_values rm') = set (set_values rm)
            \<union> (if \<exists>other \<in> set others. isChildOf (ds ! deck) (ds ! other) then {deck} else {})"
proof (induction others arbitrary: h rm)
  case Nil
  then show ?case by simp
next
  case (Cons other others)
  show ?case
  proof (cases "deck \<noteq> other \<and> isChildOf (ds ! deck) (ds ! other)")
    case False
    then have "hierarchy_others fuel ds deck others (h, rm) = Some (h', rm')"
      using Cons.prems(1) by (auto split: if_splits)
    from Cons.IH[OF this Cons.prems(2,3)] Cons.prems(4) False show ?thesis
      by auto
  next
    case True
    then obtain h1 where a: "addChild fuel ds h other deck = Some h1"
      and r: "hierarchy_others fuel ds deck others (h1, set_add rm deck) = Some (h', rm')"
      using Cons.prems(1) by (auto split: option.splits)
    have "(other, deck) \<in> child_rel ds"
      using True Cons.prems by (simp add: child_rel_def)
    then have "heap_ok ds h1" using addChild_ok[OF a Cons.prems(2)] by simp
    from Cons.IH[OF r this Cons.prems(3)] Cons.prems(4) True show ?thesis
      by (auto simp: set_values_set_add)
  qed
qed

lemma hierarchy_decks_ok:
  "hierarchy_decks fuel ds all rest (h, rm) = Some (h', rm') \<Longrightarrow> heap_ok ds h
   \<Longrightarrow> \<forall>d \<in> set rest. d < length ds \<Longrightarrow> \<forall>d \<in> set all. d < length ds
   \<Longrightarrow> heap_ok ds h'
       \<and> set (set_values rm') = set (set_values rm)
            \<union> {d \<in> set rest. \<exists>other \<in> set all. isChildOf (ds ! d) (ds ! other)}"
proof (induction rest arbitrary: h rm)
  case Nil
  then show ?case by simp
next
  case (Cons deck rest)
  then obtain h1 rm1 where o: "hierarchy_others fuel ds deck all (h, rm) = Some (h1, rm1)"
    and r: "hierarchy_decks fuel ds all rest (h1, rm1) = Some (h', rm')"
    by (auto split: option.splits)
  have d: "deck < length ds" using Cons.prems(3) by simp
  note o' = hierarchy_others_ok[OF o Cons.prems(2) d Cons.prems(4)]
  have rest: "\<forall>d \<in> set rest. d < length ds" using Cons.prems(3) by simp
  from Cons.IH[OF r conjunct1[OF o'] rest Cons.prems(4)] o' show ?case
    by auto
qed

lemma edges_replicate [simp]: "edges (replicate n []) = {}"
  by (auto simp: edges_def)

lemma buildDeckHierarchy_ok:
  assumes "buildDeckHierarchy fuel ds = Some r"
  shows "heap_ok ds (snd r)"
    and "roots_of r
         = filter (\<lambda>d. \<not> (\<exists>other < length ds. isChildOf (ds ! d) (ds ! other))) [0..<length ds]"
proof -
  from assms obtain h rm where
    run: "hierarchy_decks fuel ds [0..<length ds] [0..<length ds] (replicate (length ds) [], [])
            = Some (h, rm)"
    and r: "r = (fold (\<lambda>deck s. set_delete s deck) (set_values rm) (map Some [0..<length ds]), h)"
    by (auto simp: buildDeckHierarchy_def Let_def split: option.splits)
  have ok0: "heap_ok ds (replicate (length ds) [])"
    by (simp add: heap_ok_def)
  have ids: "\<forall>d \<in> set [0..<length ds]. d < length ds" by simp
  note res = hierarchy_decks_ok[OF run ok0 ids ids]
  show "heap_ok ds (snd r)" using res r by simp
  have rm: "set (set_values rm)
      = {d. d < length ds \<and> (\<exists>other < length ds. isChildOf (ds ! d) (ds ! other))}"
    using res by (auto simp: set_values_def)
  show "roots_of r
         = filter (\<lambda>d. \<not> (\<exists>other < length ds. isChildOf (ds ! d) (ds ! other))) [0..<length ds]"
    unfolding roots_of_def r fst_conv set_values_fold_delete set_values_map_Some rm
    by (rule filter_cong) auto
qed

lemma children_of_edges:
  "p < length (snd r) \<Longrightarrow> c \<in> set (children_of r p) \<longleftrightarrow> (p, c) \<in> edges (snd r)"
  by (simp add: children_of_def set_values_iff edges_def)

section \<open>Nesting when isChildOf has no cycle\<close>

lemma reach_avoid:
  assumes "(c, y) \<in> E\<^sup>*" and "(c, t) \<notin> E\<^sup>*"
  shows "(c, y) \<in> (E - {t} \<times> T)\<^sup>*"
  using assms
proof (induction rule: rtrancl_induct)
  case base
  then show ?case by simp
next
  case (step y z)
  then have "y \<noteq> t" by auto
  then have "(y, z) \<in> E - {t} \<times> T" using step by auto
  then show ?case using step by (meson rtrancl.rtrancl_into_rtrancl)
qed

lemma reach_reparent:
  assumes moved: "\<forall>e \<in> T. (c, e) \<in> E\<^sup>+"
    and nocycle: "(c, t) \<notin> E\<^sup>*"
  shows "E\<^sup>+ \<subseteq> (insert (t, c) (E - {t} \<times> T))\<^sup>+"
proof -
  let ?E' = "insert (t, c) (E - {t} \<times> T)"
  have sub: "(E - {t} \<times> T)\<^sup>* \<subseteq> ?E'\<^sup>*"
    by (rule rtrancl_mono) auto
  have edge: "(a, b) \<in> ?E'\<^sup>+" if ab: "(a, b) \<in> E" for a b
  proof (cases "a = t \<and> b \<in> T")
    case False
    then have "(a, b) \<in> ?E'" using ab by auto
    then show ?thesis by blast
  next
    case True
    then have "(c, b) \<in> E\<^sup>*" using moved by (simp add: trancl_into_rtrancl)
    then have "(c, b) \<in> ?E'\<^sup>*" using reach_avoid [OF _ nocycle] sub by blast
    moreover have "(t, c) \<in> ?E'" by simp
    ultimately show ?thesis using True by (meson rtrancl_into_trancl2)
  qed
  show ?thesis
  proof
    fix x assume "x \<in> E\<^sup>+"
    then obtain a b where x: "x = (a, b)" and ab: "(a, b) \<in> E\<^sup>+" by (cases x) auto
    from ab have "(a, b) \<in> ?E'\<^sup>+"
    proof (induction rule: trancl_induct)
      case (base y)
      then show ?case by (rule edge)
    next
      case (step y z)
      then show ?case using edge [of y z] by (meson trancl_trans)
    qed
    then show "x \<in> ?E'\<^sup>+" using x by simp
  qed
qed

lemma trancl_least:
  assumes "R \<subseteq> E\<^sup>+"
  shows "R\<^sup>+ \<subseteq> E\<^sup>+"
proof
  fix x assume "x \<in> R\<^sup>+"
  then obtain a b where x: "x = (a, b)" and ab: "(a, b) \<in> R\<^sup>+" by (cases x) auto
  from ab have "(a, b) \<in> E\<^sup>+"
  proof (induction rule: trancl_induct)
    case (base y)
    then show ?case using assms by blast
  next
    case (step y z)
    then have "(y, z) \<in> E\<^sup>+" using assms by blast
    then show ?case using step by (meson trancl_trans)
  qed
  then show "x \<in> E\<^sup>+" using x by simp
qed

lemma ranked_rtrancl:
  assumes "ranked ds rank" and "(a, b) \<in> (child_rel ds)\<^sup>*"
  shows "rank b \<le> rank a"
  using assms(2)
proof (induction rule: rtrancl_induct)
  case base
  then show ?case by simp
next
  case (step y z)
  then show ?case using assms(1) unfolding ranked_def by (meson le_trans less_imp_le_nat)
qed

lemma ranked_no_path_back:
  assumes "ranked ds rank" and "heap_ok ds h" and "(this, child) \<in> child_rel ds"
  shows "(child, this) \<notin> (edges h)\<^sup>*"
proof
  assume "(child, this) \<in> (edges h)\<^sup>*"
  moreover have "(edges h)\<^sup>* \<subseteq> (child_rel ds)\<^sup>*"
    using assms(2) by (simp add: heap_ok_def rtrancl_mono)
  ultimately have "rank this \<le> rank child"
    using ranked_rtrancl [OF assms(1)] by blast
  moreover have "rank child < rank this"
    using assms(1,3) by (simp add: ranked_def)
  ultimately show False by simp
qed

lemma addChild_nest_reach:
  assumes call: "\<forall>h a b h'. heap_ok ds h \<and> (a, b) \<in> child_rel ds \<and> call h a b = Some h'
      \<longrightarrow> heap_ok ds h' \<and> (edges h)\<^sup>+ \<subseteq> (edges h')\<^sup>+ \<and> (a, b) \<in> (edges h')\<^sup>+"
  shows "addChild_nest call ds n h this child i added = Some (h', added') \<Longrightarrow> heap_ok ds h
    \<Longrightarrow> this < length ds \<Longrightarrow> child < length ds
    \<Longrightarrow> (edges h)\<^sup>+ \<subseteq> (edges h')\<^sup>+ \<and> (added' \<longrightarrow> added \<or> (this, child) \<in> (edges h')\<^sup>+)"
proof (induction n arbitrary: h i added)
  case 0
  then show ?case by simp
next
  case (Suc n)
  show ?case
  proof (cases "i < length (h ! this)")
    case False
    then show ?thesis using Suc.prems by auto
  next
    case True
    have len: "this < length h" using Suc.prems by (simp add: heap_ok_def)
    show ?thesis
    proof (cases "(h ! this) ! i")
      case None
      then have "addChild_nest call ds n h this child (Suc i) added = Some (h', added')"
        using Suc.prems(1) True by simp
      from Suc.IH [OF this Suc.prems(2-4)] show ?thesis .
    next
      case (Some existing)
      have te: "(this, existing) \<in> edges h"
        using edges_nth [OF True len Some] .
      have ex: "existing < length ds"
        using heap_ok_edge [OF Suc.prems(2) te] by simp
      show ?thesis
      proof (cases "isChildOf (ds ! child) (ds ! existing)")
        case False
        then have "addChild_nest call ds n h this child (Suc i) added = Some (h', added')"
          using Suc.prems(1) True Some by simp
        from Suc.IH [OF this Suc.prems(2-4)] show ?thesis .
      next
        case isc: True
        then obtain h1 where c1: "call h existing child = Some h1"
          and r1: "addChild_nest call ds n h1 this child (Suc i) True = Some (h', added')"
          using Suc.prems(1) True Some by (auto split: option.splits)
        have rel: "(existing, child) \<in> child_rel ds"
          using isc ex Suc.prems by (simp add: child_rel_def)
        have ok1: "heap_ok ds h1" using call Suc.prems(2) rel c1 by blast
        have cr: "(edges h)\<^sup>+ \<subseteq> (edges h1)\<^sup>+ \<and> (existing, child) \<in> (edges h1)\<^sup>+"
          using call Suc.prems(2) rel c1 by blast
        note ih = Suc.IH [OF r1 ok1 Suc.prems(3,4)]
        have "(this, existing) \<in> (edges h1)\<^sup>+" using te cr by blast
        then have "(this, child) \<in> (edges h1)\<^sup>+" using cr by (meson trancl_trans)
        then have "(this, child) \<in> (edges h')\<^sup>+" using ih by blast
        moreover have "(edges h)\<^sup>+ \<subseteq> (edges h')\<^sup>+" using cr ih by blast
        ultimately show ?thesis by blast
      qed
    qed
  qed
qed

lemma addChild_adopt_reach:
  assumes call: "\<forall>h a b h'. heap_ok ds h \<and> (a, b) \<in> child_rel ds \<and> call h a b = Some h'
      \<longrightarrow> heap_ok ds h' \<and> (edges h)\<^sup>+ \<subseteq> (edges h')\<^sup>+ \<and> (a, b) \<in> (edges h')\<^sup>+"
  shows "addChild_adopt call ds n h this child i rm = Some (h', rm') \<Longrightarrow> heap_ok ds h
    \<Longrightarrow> this < length ds \<Longrightarrow> child < length ds
    \<Longrightarrow> \<forall>e \<in> set (set_values rm). (child, e) \<in> (edges h)\<^sup>+
    \<Longrightarrow> (edges h)\<^sup>+ \<subseteq> (edges h')\<^sup>+ \<and> (\<forall>e \<in> set (set_values rm'). (child, e) \<in> (edges h')\<^sup>+)"
proof (induction n arbitrary: h i rm)
  case 0
  then show ?case by simp
next
  case (Suc n)
  show ?case
  proof (cases "i < length (h ! this)")
    case False
    then show ?thesis using Suc.prems by auto
  next
    case True
    have len: "this < length h" using Suc.prems by (simp add: heap_ok_def)
    show ?thesis
    proof (cases "(h ! this) ! i")
      case None
      then have "addChild_adopt call ds n h this child (Suc i) rm = Some (h', rm')"
        using Suc.prems(1) True by simp
      from Suc.IH [OF this Suc.prems(2-5)] show ?thesis .
    next
      case (Some existing)
      have te: "(this, existing) \<in> edges h"
        using edges_nth [OF True len Some] .
      have ex: "existing < length ds"
        using heap_ok_edge [OF Suc.prems(2) te] by simp
      show ?thesis
      proof (cases "isChildOf (ds ! existing) (ds ! child)")
        case False
        then have "addChild_adopt call ds n h this child (Suc i) rm = Some (h', rm')"
          using Suc.prems(1) True Some by simp
        from Suc.IH [OF this Suc.prems(2-5)] show ?thesis .
      next
        case isc: True
        then obtain h1 where c1: "call h child existing = Some h1"
          and r1: "addChild_adopt call ds n h1 this child (Suc i) (set_add rm existing)
                     = Some (h', rm')"
          using Suc.prems(1) True Some by (auto split: option.splits)
        have rel: "(child, existing) \<in> child_rel ds"
          using isc ex Suc.prems by (simp add: child_rel_def)
        have ok1: "heap_ok ds h1" using call Suc.prems(2) rel c1 by blast
        have cr: "(edges h)\<^sup>+ \<subseteq> (edges h1)\<^sup>+ \<and> (child, existing) \<in> (edges h1)\<^sup>+"
          using call Suc.prems(2) rel c1 by blast
        have rm1: "\<forall>e \<in> set (set_values (set_add rm existing)). (child, e) \<in> (edges h1)\<^sup>+"
          using Suc.prems(5) cr by (auto simp: set_values_set_add)
        note ih = Suc.IH [OF r1 ok1 Suc.prems(3,4) rm1]
        show ?thesis using cr ih by blast
      qed
    qed
  qed
qed

lemma addChild_reach:
  assumes rk: "ranked ds rank"
  shows "addChild n ds h this child = Some h' \<Longrightarrow> heap_ok ds h \<Longrightarrow> (this, child) \<in> child_rel ds
     \<Longrightarrow> (edges h)\<^sup>+ \<subseteq> (edges h')\<^sup>+ \<and> (this, child) \<in> (edges h')\<^sup>+"
proof (induction n arbitrary: h this child h')
  case 0
  then show ?case by simp
next
  case (Suc n)
  have callok: "\<And>h a b h'. heap_ok ds h \<Longrightarrow> (a, b) \<in> child_rel ds
      \<Longrightarrow> addChild n ds h a b = Some h' \<Longrightarrow> heap_ok ds h'"
    using addChild_ok by blast
  have call: "\<forall>h a b h'. heap_ok ds h \<and> (a, b) \<in> child_rel ds \<and> addChild n ds h a b = Some h'
      \<longrightarrow> heap_ok ds h' \<and> (edges h)\<^sup>+ \<subseteq> (edges h')\<^sup>+ \<and> (a, b) \<in> (edges h')\<^sup>+"
    using Suc.IH addChild_ok by blast
  have ids: "this < length ds" "child < length ds"
    using Suc.prems(3) by (simp_all add: child_rel_def)
  have len: "this < length h" using Suc.prems(2) ids by (simp add: heap_ok_def)
  show ?case
  proof (cases "set_has (h ! this) child")
    case True
    then have "h' = h" and "(this, child) \<in> edges h"
      using Suc.prems(1) len by (simp_all add: edges_def set_has_def)
    then show ?thesis by blast
  next
    case False
    then obtain h1 added where
      n1: "addChild_nest (addChild n ds) ds n h this child 0 False = Some (h1, added)"
      using Suc.prems(1) by (auto split: option.splits)
    have ok1: "heap_ok ds h1"
      using addChild_nest_ok [OF callok n1 Suc.prems(2) ids] .
    note r1 = addChild_nest_reach [OF call n1 Suc.prems(2) ids]
    show ?thesis
    proof (cases added)
      case True
      then have "h' = h1" using Suc.prems(1) False n1 by simp
      then show ?thesis using r1 True by blast
    next
      case nadded: False
      then obtain h2 rm where
        n2: "addChild_adopt (addChild n ds) ds n h1 this child 0 [] = Some (h2, rm)"
        using Suc.prems(1) False n1 by (auto split: option.splits)
      have ok2: "heap_ok ds h2"
        using addChild_adopt_ok [OF callok n2 ok1 ids] .
      have rm0: "\<forall>e \<in> set (set_values []). (child, e) \<in> (edges h1)\<^sup>+"
        by (simp add: set_values_def)
      note r2 = addChild_adopt_reach [OF call n2 ok1 ids rm0]
      have h': "h' = children_add (fold (\<lambda>deck h'. children_delete h' this deck) (set_values rm) h2)
                  this child"
        using Suc.prems(1) False n1 nadded n2 by simp
      have len2: "this < length h2" using ok2 ids by (simp add: heap_ok_def)
      have e': "edges h' = insert (this, child) (edges h2 - {this} \<times> set (set_values rm))"
        unfolding h' using len2 by (simp add: edges_children_add edges_fold_delete)
      have nocycle: "(child, this) \<notin> (edges h2)\<^sup>*"
        using ranked_no_path_back [OF rk ok2 Suc.prems(3)] .
      have "(edges h2)\<^sup>+ \<subseteq> (edges h')\<^sup>+"
        unfolding e' using reach_reparent [OF _ nocycle] r2 by blast
      moreover have "(this, child) \<in> (edges h')\<^sup>+"
        unfolding e' by blast
      ultimately show ?thesis using r1 r2 by blast
    qed
  qed
qed

lemma hierarchy_others_reach:
  assumes rk: "ranked ds rank"
  shows "hierarchy_others fuel ds deck others (h, rm) = Some (h', rm') \<Longrightarrow> heap_ok ds h
   \<Longrightarrow> deck < length ds \<Longrightarrow> \<forall>other \<in> set others. other < length ds
   \<Longrightarrow> (edges h)\<^sup>+ \<subseteq> (edges h')\<^sup>+
       \<and> (\<forall>other \<in> set others. isChildOf (ds ! deck) (ds ! other) \<longrightarrow> (other, deck) \<in> (edges h')\<^sup>+)"
proof (induction others arbitrary: h rm)
  case Nil
  then show ?case by simp
next
  case (Cons other others)
  show ?case
  proof (cases "deck \<noteq> other \<and> isChildOf (ds ! deck) (ds ! other)")
    case False
    then have "hierarchy_others fuel ds deck others (h, rm) = Some (h', rm')"
      using Cons.prems(1) by (auto split: if_splits)
    from Cons.IH [OF this Cons.prems(2,3)] Cons.prems(4) False show ?thesis
      by auto
  next
    case True
    then obtain h1 where a: "addChild fuel ds h other deck = Some h1"
      and r: "hierarchy_others fuel ds deck others (h1, set_add rm deck) = Some (h', rm')"
      using Cons.prems(1) by (auto split: option.splits)
    have rel: "(other, deck) \<in> child_rel ds"
      using True Cons.prems by (simp add: child_rel_def)
    have ok1: "heap_ok ds h1" using addChild_ok [OF a Cons.prems(2) rel] .
    note ar = addChild_reach [OF rk a Cons.prems(2) rel]
    have rest: "\<forall>other \<in> set others. other < length ds" using Cons.prems(4) by simp
    note ih = Cons.IH [OF r ok1 Cons.prems(3) rest]
    have "(other, deck) \<in> (edges h')\<^sup>+" using ar ih by blast
    moreover have "(edges h)\<^sup>+ \<subseteq> (edges h')\<^sup>+" using ar ih by blast
    ultimately show ?thesis using ih by auto
  qed
qed

lemma hierarchy_decks_reach:
  assumes rk: "ranked ds rank"
  shows "hierarchy_decks fuel ds all rest (h, rm) = Some (h', rm') \<Longrightarrow> heap_ok ds h
   \<Longrightarrow> \<forall>d \<in> set rest. d < length ds \<Longrightarrow> \<forall>d \<in> set all. d < length ds
   \<Longrightarrow> (edges h)\<^sup>+ \<subseteq> (edges h')\<^sup>+
       \<and> (\<forall>d \<in> set rest. \<forall>other \<in> set all.
            isChildOf (ds ! d) (ds ! other) \<longrightarrow> (other, d) \<in> (edges h')\<^sup>+)"
proof (induction rest arbitrary: h rm)
  case Nil
  then show ?case by simp
next
  case (Cons deck rest)
  then obtain h1 rm1 where o: "hierarchy_others fuel ds deck all (h, rm) = Some (h1, rm1)"
    and r: "hierarchy_decks fuel ds all rest (h1, rm1) = Some (h', rm')"
    by (auto split: option.splits)
  have d: "deck < length ds" using Cons.prems(3) by simp
  have ok1: "heap_ok ds h1"
    using hierarchy_others_ok [OF o Cons.prems(2) d Cons.prems(4)] by simp
  note o' = hierarchy_others_reach [OF rk o Cons.prems(2) d Cons.prems(4)]
  have rest: "\<forall>d \<in> set rest. d < length ds" using Cons.prems(3) by simp
  note ih = Cons.IH [OF r ok1 rest Cons.prems(4)]
  have "\<forall>other \<in> set all. isChildOf (ds ! deck) (ds ! other) \<longrightarrow> (other, deck) \<in> (edges h')\<^sup>+"
    using o' ih by blast
  moreover have "(edges h)\<^sup>+ \<subseteq> (edges h')\<^sup>+" using o' ih by blast
  ultimately show ?case using ih by auto
qed

lemma buildDeckHierarchy_reach:
  assumes rk: "ranked ds rank" and run: "buildDeckHierarchy fuel ds = Some r"
  shows "(edges (snd r))\<^sup>+ = (child_rel ds)\<^sup>+"
proof -
  from run obtain h rm where
    run': "hierarchy_decks fuel ds [0..<length ds] [0..<length ds] (replicate (length ds) [], [])
            = Some (h, rm)"
    and r: "snd r = h"
    by (auto simp: buildDeckHierarchy_def Let_def split: option.splits)
  have ok0: "heap_ok ds (replicate (length ds) [])"
    by (simp add: heap_ok_def)
  have ids: "\<forall>d \<in> set [0..<length ds]. d < length ds" by simp
  note res = hierarchy_decks_reach [OF rk run' ok0 ids ids]
  have "child_rel ds \<subseteq> (edges h)\<^sup>+"
    using res by (auto simp: child_rel_def)
  then have "(child_rel ds)\<^sup>+ \<subseteq> (edges h)\<^sup>+"
    by (rule trancl_least)
  moreover have "edges h \<subseteq> (child_rel ds)\<^sup>+"
    using buildDeckHierarchy_ok(1) [OF run] r by (auto simp: heap_ok_def)
  then have "(edges h)\<^sup>+ \<subseteq> (child_rel ds)\<^sup>+"
    by (rule trancl_least)
  ultimately show ?thesis using r by simp
qed

section \<open>Builds of the same decks in different orders\<close>

lemma ranked_decks:
  assumes "\<forall>a \<in> set ds. \<forall>b \<in> set ds. isChildOf a b \<longrightarrow> (rank a :: nat) < rank b"
  shows "ranked ds (\<lambda>d. rank (ds ! d))"
  using assms by (auto simp: ranked_def child_rel_def)

lemma nested_under_child_rel:
  assumes "ranked ds rank" and "buildDeckHierarchy fuel ds = Some r"
  shows "nested_under r a b \<longleftrightarrow> (b, a) \<in> (child_rel ds)\<^sup>+"
  using buildDeckHierarchy_reach [OF assms] by (simp add: nested_under_def set_edge_list)

lemma child_rel_to_decks:
  "(b, a) \<in> (child_rel ds)\<^sup>+ \<Longrightarrow> (ds ! b, ds ! a) \<in> (deck_rel (set ds))\<^sup>+"
proof (induction rule: trancl_induct)
  case (base y)
  then have "(ds ! b, ds ! y) \<in> deck_rel (set ds)"
    by (simp add: child_rel_def deck_rel_def)
  then show ?case by blast
next
  case (step y z)
  then have "(ds ! y, ds ! z) \<in> deck_rel (set ds)"
    by (simp add: child_rel_def deck_rel_def)
  then show ?case using step.IH by (meson trancl.trancl_into_trancl)
qed

lemma decks_to_child_rel:
  "(y, x) \<in> (deck_rel (set ds))\<^sup>+
   \<Longrightarrow> \<exists>b a. b < length ds \<and> a < length ds \<and> ds ! b = y \<and> ds ! a = x \<and> (b, a) \<in> (child_rel ds)\<^sup>+"
proof (induction rule: trancl_induct)
  case (base x)
  then obtain b a where "b < length ds" "a < length ds" "ds ! b = y" "ds ! a = x"
    and "isChildOf x y"
    by (auto simp: deck_rel_def in_set_conv_nth)
  then have "(b, a) \<in> child_rel ds" by (simp add: child_rel_def)
  then show ?case using \<open>b < length ds\<close> \<open>a < length ds\<close> \<open>ds ! b = y\<close> \<open>ds ! a = x\<close> by blast
next
  case (step x z)
  then obtain b a where ba: "b < length ds" "a < length ds" "ds ! b = y" "ds ! a = x"
    "(b, a) \<in> (child_rel ds)\<^sup>+"
    by blast
  from step.hyps(2) obtain c where c: "c < length ds" "ds ! c = z" and "isChildOf z x"
    by (auto simp: deck_rel_def in_set_conv_nth)
  then have "(a, c) \<in> child_rel ds" using ba by (simp add: child_rel_def)
  then have "(b, c) \<in> (child_rel ds)\<^sup>+" using ba(5) by (meson trancl.trancl_into_trancl)
  then show ?case using ba c by blast
qed

lemma nested_decks_eq:
  assumes "ranked ds rank" and "buildDeckHierarchy fuel ds = Some r"
  shows "nested_decks ds r = {(x, y). (y, x) \<in> (deck_rel (set ds))\<^sup>+}"
proof (intro set_eqI iffI)
  fix q assume "q \<in> nested_decks ds r"
  then obtain a b where "q = (ds ! a, ds ! b)" "(b, a) \<in> (child_rel ds)\<^sup>+"
    unfolding nested_decks_def nested_under_child_rel [OF assms] by blast
  then show "q \<in> {(x, y). (y, x) \<in> (deck_rel (set ds))\<^sup>+}"
    using child_rel_to_decks by auto
next
  fix q assume "q \<in> {(x, y). (y, x) \<in> (deck_rel (set ds))\<^sup>+}"
  then obtain x y where q: "q = (x, y)" and "(y, x) \<in> (deck_rel (set ds))\<^sup>+" by auto
  from decks_to_child_rel [OF this(2)] obtain b a where
    "b < length ds" "a < length ds" "ds ! b = y" "ds ! a = x" "(b, a) \<in> (child_rel ds)\<^sup>+"
    by blast
  then show "q \<in> nested_decks ds r"
    unfolding nested_decks_def nested_under_child_rel [OF assms] q by blast
qed

lemma root_decks_eq:
  assumes "buildDeckHierarchy fuel ds = Some r"
  shows "root_decks ds r = filter (\<lambda>x. \<not> (\<exists>y \<in> set ds. isChildOf x y)) ds"
proof -
  have "roots_of r
      = filter ((\<lambda>x. \<not> (\<exists>y \<in> set ds. isChildOf x y)) \<circ> (\<lambda>d. ds ! d)) [0..<length ds]"
    unfolding buildDeckHierarchy_ok(2) [OF assms]
    by (rule filter_cong) (auto simp: in_set_conv_nth dest: nth_mem)
  then have "root_decks ds r
      = filter (\<lambda>x. \<not> (\<exists>y \<in> set ds. isChildOf x y)) (map (\<lambda>d. ds ! d) [0..<length ds])"
    by (simp add: root_decks_def filter_map)
  then show ?thesis by (simp add: map_nth)
qed

lemma order_decks_acyclic:
  "\<forall>a \<in> set order_decks. \<forall>b \<in> set order_decks.
     isChildOf a b \<longrightarrow> length (cards a) < length (cards b)"
  by (simp add: order_decks_def deckOf_def emptyDeck_def isChildOf_def)

section \<open>The error channel of buildDecks\<close>

lemma overflow_rel:
  "isChildOf (overflow_decks ! 0) (overflow_decks ! 1)"
  "\<not> isChildOf (overflow_decks ! 0) (overflow_decks ! 2)"
  "isChildOf (overflow_decks ! 1) (overflow_decks ! 0)"
  "\<not> isChildOf (overflow_decks ! 1) (overflow_decks ! 2)"
  "isChildOf (overflow_decks ! 2) (overflow_decks ! 0)"
  "isChildOf (overflow_decks ! 2) (overflow_decks ! 1)"
  by code_simp+

lemma overflow_addChild:
  "addChild n overflow_decks [[Some 1], [Some 0], []] 0 2 = None
   \<and> addChild n overflow_decks [[Some 1], [Some 0], []] 1 2 = None"
proof (induction n)
  case 0
  then show ?case by simp
next
  case (Suc n)
  have "addChild_nest (addChild n overflow_decks) overflow_decks n
          [[Some 1], [Some 0], []] 0 2 0 False = None"
    using Suc overflow_rel by (cases n) (simp_all add: numeral_2_eq_2)
  moreover have "addChild_nest (addChild n overflow_decks) overflow_decks n
          [[Some 1], [Some 0], []] 1 2 0 False = None"
    using Suc overflow_rel by (cases n) (simp_all add: numeral_2_eq_2)
  ultimately show ?case
    by (simp add: set_has_def)
qed

lemma overflow_hierarchy: "buildDeckHierarchy fuel overflow_decks = None"
proof -
  have ids: "[0..<length overflow_decks] = [0, 1, 2]"
    by code_simp
  have len: "replicate (length overflow_decks) [] = [[], [], []]"
    by (simp add: overflow_decks_def)
  consider "fuel = 0" | "fuel = 1" | "2 \<le> fuel" by linarith
  then show ?thesis
  proof cases
    case 1
    then show ?thesis
      unfolding buildDeckHierarchy_def Let_def ids len
      using overflow_rel by simp
  next
    case 2
    then show ?thesis
      unfolding buildDeckHierarchy_def Let_def ids len
      using overflow_rel by (simp add: set_has_def)
  next
    case 3
    have "addChild 2 overflow_decks [[], [], []] 1 0 = Some [[], [Some 0], []]"
      by code_simp
    then have a1: "addChild fuel overflow_decks [[], [], []] 1 0 = Some [[], [Some 0], []]"
      using 3 by (rule addChild_mono)
    have "addChild 2 overflow_decks [[], [Some 0], []] 0 1 = Some [[Some 1], [Some 0], []]"
      by code_simp
    then have a2: "addChild fuel overflow_decks [[], [Some 0], []] 0 1
        = Some [[Some 1], [Some 0], []]"
      using 3 by (rule addChild_mono)
    have a3: "addChild fuel overflow_decks [[Some 1], [Some 0], []] 0 2 = None"
      using overflow_addChild by blast
    show ?thesis
      unfolding buildDeckHierarchy_def Let_def ids len
      using overflow_rel a1 a2 a3 by simp
  qed
qed

lemma set_has_values: "set_has s v \<longleftrightarrow> v \<in> set (set_values s)"
  by (simp add: set_has_def set_values_iff)

lemma buildDecks_files_logged:
  "buildDecks_files init files (cs, errs, seen) = (cs', errs', seen')
   \<Longrightarrow> inj_on file_path (visited \<union> set files)
   \<Longrightarrow> errors_logged init visited errs seen
   \<Longrightarrow> errors_logged init (visited \<union> set files) errs' seen'"
proof (induction files arbitrary: cs errs seen visited)
  case Nil
  then show ?case by simp
next
  case (Cons fl files)
  have inj: "inj_on file_path (insert fl visited \<union> set files)"
    using Cons.prems(2) by simp
  from Cons.prems(3) obtain fs where fs: "distinct (map file_path fs)"
    "set fs = {f \<in> visited. isl (init f)}"
    "errs = concat (map (\<lambda>f. projl (init f)) fs)"
    "set (set_values seen) = file_path ` set fs"
    unfolding errors_logged_def by blast
  have step: "\<exists>cs1 errs1 seen1.
      buildDecks_files init files (cs1, errs1, seen1) = (cs', errs', seen')
      \<and> errors_logged init (insert fl visited) errs1 seen1"
  proof (cases "set_has seen (file_path fl)")
    case True
    then obtain g where g: "g \<in> set fs" "file_path g = file_path fl"
      using fs(4) by (auto simp: set_has_values)
    then have "g \<in> visited" using fs(2) by simp
    then have "g = fl"
      using g(2) Cons.prems(2) by (auto simp: inj_on_def)
    then have "fl \<in> visited \<and> isl (init fl)" using g(1) fs(2) \<open>g \<in> visited\<close> by simp
    then have "{f \<in> visited. isl (init f)} = {f \<in> insert fl visited. isl (init f)}"
      by blast
    then have "set fs = {f \<in> insert fl visited. isl (init f)}"
      using fs(2) by simp
    then have "errors_logged init (insert fl visited) errs seen"
      unfolding errors_logged_def using fs by blast
    then show ?thesis using Cons.prems(1) True by auto
  next
    case False
    then have new: "file_path fl \<notin> file_path ` set fs"
      using fs(4) by (simp add: set_has_values)
    show ?thesis
    proof (cases "init fl")
      case (Inl result)
      have "distinct (map file_path (fs @ [fl]))"
        using fs(1) new by simp
      moreover have "set (fs @ [fl]) = {f \<in> insert fl visited. isl (init f)}"
      proof -
        have "isl (init fl)" using Inl by simp
        then have "insert fl {f \<in> visited. isl (init f)} = {f \<in> insert fl visited. isl (init f)}"
          by blast
        then show ?thesis unfolding fs(2) [symmetric] by simp
      qed
      moreover have "errs @ result = concat (map (\<lambda>f. projl (init f)) (fs @ [fl]))"
        using fs(3) Inl by simp
      moreover have "set (set_values (set_add seen (file_path fl)))
          = file_path ` set (fs @ [fl])"
        using fs(4) by (simp add: set_values_set_add)
      ultimately have "errors_logged init (insert fl visited) (errs @ result)
          (set_add seen (file_path fl))"
        unfolding errors_logged_def by blast
      then show ?thesis using Cons.prems(1) False Inl by auto
    next
      case (Inr result)
      then have "\<not> isl (init fl)" by simp
      then have "{f \<in> visited. isl (init f)} = {f \<in> insert fl visited. isl (init f)}"
        by blast
      then have "set fs = {f \<in> insert fl visited. isl (init f)}"
        using fs(2) by simp
      then have "errors_logged init (insert fl visited) errs seen"
        unfolding errors_logged_def using fs by blast
      then show ?thesis using Cons.prems(1) False Inr by auto
    qed
  qed
  then obtain cs1 errs1 seen1 where
    r: "buildDecks_files init files (cs1, errs1, seen1) = (cs', errs', seen')"
    and l: "errors_logged init (insert fl visited) errs1 seen1"
    by blast
  from Cons.IH [OF r inj l] show ?case by simp
qed

lemma buildDecks_patterns_logged:
  "buildDecks_patterns minimatch init allFiles exclude pats (decks, errs, seen)
     = (decks', errs', seen')
   \<Longrightarrow> inj_on file_path (set allFiles) \<Longrightarrow> visited \<subseteq> set allFiles
   \<Longrightarrow> errors_logged init visited errs seen
   \<Longrightarrow> errors_logged init
         (visited \<union> (\<Union>pat \<in> set pats. set (filterFiles minimatch allFiles [pat] exclude)))
         errs' seen'"
proof (induction pats arbitrary: decks errs seen visited)
  case Nil
  then show ?case by simp
next
  case (Cons pat pats)
  let ?files = "filterFiles minimatch allFiles [pat] exclude"
  obtain cs errs1 seen1 where
    f: "buildDecks_files init ?files ([], errs, seen) = (cs, errs1, seen1)"
    by (metis prod_cases3)
  have sub: "set ?files \<subseteq> set allFiles"
    by (auto simp: filterFiles_def)
  have inj: "inj_on file_path (visited \<union> set ?files)"
    using Cons.prems(2,3) sub by (meson Un_least inj_on_subset)
  note l1 = buildDecks_files_logged [OF f inj Cons.prems(4)]
  have r: "buildDecks_patterns minimatch init allFiles exclude pats
      (decks @ [\<lparr>pattern = pat, cards = cs\<rparr>], errs1, seen1) = (decks', errs', seen')"
    using Cons.prems(1) f by (simp add: Let_def)
  have sub': "visited \<union> set ?files \<subseteq> set allFiles"
    using Cons.prems(3) sub by simp
  from Cons.IH [OF r Cons.prems(2) sub' l1] show ?case
    by (simp add: Un_assoc)
qed

lemma Card_init_errors: "Card_init v e file fm = Inl errs \<Longrightarrow> errs \<noteq> []"
  by (auto simp: Card_init_def fromFrontmatter_def Let_def split: if_splits sum.splits)

section \<open>Siblings when isChildOf has no cycle\<close>

text \<open>
  When \<open>isChildOf\<close> has no cycle, a call of \<^verbatim>\<open>addChild\<close> on a deck changes the
  \<^verbatim>\<open>children\<close> sets of this deck and of decks below it only, and it keeps the decks of
  every \<^verbatim>\<open>children\<close> set unrelated to each other.
\<close>

lemma ranked_edge:
  "ranked ds rank \<Longrightarrow> heap_ok ds h \<Longrightarrow> (p, c) \<in> edges h \<Longrightarrow> rank c < rank p"
  by (auto simp: ranked_def heap_ok_def)

lemma addChild_nest_frame:
  assumes rk: "ranked ds rank"
    and call: "\<forall>h a b h'. heap_ok ds h \<and> antichain ds h \<and> (a, b) \<in> child_rel ds
        \<and> call h a b = Some h'
      \<longrightarrow> heap_ok ds h' \<and> antichain ds h' \<and> (\<forall>y. rank a < rank y \<longrightarrow> h' ! y = h ! y)"
  shows "addChild_nest call ds n h this child i added = Some (h', added') \<Longrightarrow> heap_ok ds h
    \<Longrightarrow> antichain ds h \<Longrightarrow> this < length ds \<Longrightarrow> child < length ds
    \<Longrightarrow> heap_ok ds h' \<and> antichain ds h' \<and> (\<forall>y. rank this \<le> rank y \<longrightarrow> h' ! y = h ! y)
        \<and> (added \<longrightarrow> added')
        \<and> (\<not> added' \<longrightarrow> h' = h
              \<and> (\<forall>j e. i \<le> j \<and> j < length (h ! this) \<and> (h ! this) ! j = Some e
                    \<longrightarrow> \<not> isChildOf (ds ! child) (ds ! e)))"
proof (induction n arbitrary: h i added)
  case 0
  then show ?case by simp
next
  case (Suc n)
  show ?case
  proof (cases "i < length (h ! this)")
    case False
    then show ?thesis using Suc.prems by auto
  next
    case True
    have len: "this < length h" using Suc.prems by (simp add: heap_ok_def)
    have next_j: "\<And>j. i \<le> j \<Longrightarrow> j = i \<or> Suc i \<le> j" by auto
    show ?thesis
    proof (cases "(h ! this) ! i")
      case None
      then have r: "addChild_nest call ds n h this child (Suc i) added = Some (h', added')"
        using Suc.prems(1) True by simp
      note ih = Suc.IH [OF r Suc.prems(2-5)]
      have "\<forall>j e. i \<le> j \<and> j < length (h ! this) \<and> (h ! this) ! j = Some e
                    \<longrightarrow> \<not> isChildOf (ds ! child) (ds ! e)" if "\<not> added'"
        using ih that None next_j by (metis option.distinct(1))
      then show ?thesis using ih by blast
    next
      case (Some existing)
      have te: "(this, existing) \<in> edges h"
        using edges_nth [OF True len Some] .
      have ex: "existing < length ds"
        using heap_ok_edge [OF Suc.prems(2) te] by simp
      show ?thesis
      proof (cases "isChildOf (ds ! child) (ds ! existing)")
        case False
        then have r: "addChild_nest call ds n h this child (Suc i) added = Some (h', added')"
          using Suc.prems(1) True Some by simp
        note ih = Suc.IH [OF r Suc.prems(2-5)]
        have "\<forall>j e. i \<le> j \<and> j < length (h ! this) \<and> (h ! this) ! j = Some e
                    \<longrightarrow> \<not> isChildOf (ds ! child) (ds ! e)" if "\<not> added'"
          using ih that Some False next_j by (metis option.inject)
        then show ?thesis using ih by blast
      next
        case isc: True
        then obtain h1 where c1: "call h existing child = Some h1"
          and r1: "addChild_nest call ds n h1 this child (Suc i) True = Some (h', added')"
          using Suc.prems(1) True Some by (auto split: option.splits)
        have rel: "(existing, child) \<in> child_rel ds"
          using isc ex Suc.prems by (simp add: child_rel_def)
        have c: "heap_ok ds h1 \<and> antichain ds h1 \<and> (\<forall>y. rank existing < rank y \<longrightarrow> h1 ! y = h ! y)"
          using call Suc.prems(2,3) rel c1 by blast
        note ih = Suc.IH [OF r1 _ _ Suc.prems(4,5)]
        have lt: "rank existing < rank this"
          using ranked_edge [OF rk Suc.prems(2) te] .
        have "\<forall>y. rank this \<le> rank y \<longrightarrow> h' ! y = h ! y"
          using ih c lt by (metis le_trans less_le_trans not_less order_less_imp_le)
        then show ?thesis using ih c by blast
      qed
    qed
  qed
qed

lemma addChild_adopt_frame:
  assumes rk: "ranked ds rank"
    and call: "\<forall>h a b h'. heap_ok ds h \<and> antichain ds h \<and> (a, b) \<in> child_rel ds
        \<and> call h a b = Some h'
      \<longrightarrow> heap_ok ds h' \<and> antichain ds h' \<and> (\<forall>y. rank a < rank y \<longrightarrow> h' ! y = h ! y)"
  shows "addChild_adopt call ds n h this child i rm = Some (h', rm') \<Longrightarrow> heap_ok ds h
    \<Longrightarrow> antichain ds h \<Longrightarrow> (this, child) \<in> child_rel ds
    \<Longrightarrow> heap_ok ds h' \<and> antichain ds h' \<and> (\<forall>y. rank this \<le> rank y \<longrightarrow> h' ! y = h ! y)
        \<and> set (set_values rm')
            = set (set_values rm)
              \<union> {e. \<exists>j. i \<le> j \<and> j < length (h ! this) \<and> (h ! this) ! j = Some e
                       \<and> isChildOf (ds ! e) (ds ! child)}"
proof (induction n arbitrary: h i rm)
  case 0
  then show ?case by simp
next
  case (Suc n)
  have ids: "this < length ds" "child < length ds"
    using Suc.prems(4) by (simp_all add: child_rel_def)
  have lt: "rank child < rank this"
    using rk Suc.prems(4) by (simp add: ranked_def)
  show ?case
  proof (cases "i < length (h ! this)")
    case False
    then show ?thesis using Suc.prems by auto
  next
    case True
    have len: "this < length h" using Suc.prems ids by (simp add: heap_ok_def)
    have split_j: "\<And>P. (\<exists>j. i \<le> j \<and> P j) \<longleftrightarrow> P i \<or> (\<exists>j. Suc i \<le> j \<and> P j)"
      by (metis Suc_leD Suc_le_eq le_eq_less_or_eq order_refl)
    show ?thesis
    proof (cases "(h ! this) ! i")
      case None
      then have r: "addChild_adopt call ds n h this child (Suc i) rm = Some (h', rm')"
        using Suc.prems(1) True by simp
      note ih = Suc.IH [OF r Suc.prems(2-4)]
      have "{e. \<exists>j. i \<le> j \<and> j < length (h ! this) \<and> (h ! this) ! j = Some e
                       \<and> isChildOf (ds ! e) (ds ! child)}
          = {e. \<exists>j. Suc i \<le> j \<and> j < length (h ! this) \<and> (h ! this) ! j = Some e
                       \<and> isChildOf (ds ! e) (ds ! child)}"
        unfolding split_j [of "\<lambda>j. j < length (h ! this) \<and> (h ! this) ! j = Some _
            \<and> isChildOf (ds ! _) (ds ! child)"]
        using None by simp
      then show ?thesis using ih by simp
    next
      case (Some existing)
      have te: "(this, existing) \<in> edges h"
        using edges_nth [OF True len Some] .
      have ex: "existing < length ds"
        using heap_ok_edge [OF Suc.prems(2) te] by simp
      show ?thesis
      proof (cases "isChildOf (ds ! existing) (ds ! child)")
        case False
        then have r: "addChild_adopt call ds n h this child (Suc i) rm = Some (h', rm')"
          using Suc.prems(1) True Some by simp
        note ih = Suc.IH [OF r Suc.prems(2-4)]
        have "{e. \<exists>j. i \<le> j \<and> j < length (h ! this) \<and> (h ! this) ! j = Some e
                       \<and> isChildOf (ds ! e) (ds ! child)}
          = {e. \<exists>j. Suc i \<le> j \<and> j < length (h ! this) \<and> (h ! this) ! j = Some e
                       \<and> isChildOf (ds ! e) (ds ! child)}"
          unfolding split_j [of "\<lambda>j. j < length (h ! this) \<and> (h ! this) ! j = Some _
              \<and> isChildOf (ds ! _) (ds ! child)"]
          using Some False by auto
        then show ?thesis using ih by simp
      next
        case isc: True
        then obtain h1 where c1: "call h child existing = Some h1"
          and r1: "addChild_adopt call ds n h1 this child (Suc i) (set_add rm existing)
                     = Some (h', rm')"
          using Suc.prems(1) True Some by (auto split: option.splits)
        have rel: "(child, existing) \<in> child_rel ds"
          using isc ex ids by (simp add: child_rel_def)
        have c: "heap_ok ds h1 \<and> antichain ds h1 \<and> (\<forall>y. rank child < rank y \<longrightarrow> h1 ! y = h ! y)"
          using call Suc.prems(2,3) rel c1 by blast
        then have same: "h1 ! this = h ! this" using lt by blast
        note ih = Suc.IH [OF r1 _ _ Suc.prems(4)]
        have frame: "\<forall>y. rank this \<le> rank y \<longrightarrow> h' ! y = h ! y"
          using ih c lt by (metis less_le_trans)
        have "{e. \<exists>j. i \<le> j \<and> j < length (h ! this) \<and> (h ! this) ! j = Some e
                       \<and> isChildOf (ds ! e) (ds ! child)}
          = insert existing {e. \<exists>j. Suc i \<le> j \<and> j < length (h ! this) \<and> (h ! this) ! j = Some e
                       \<and> isChildOf (ds ! e) (ds ! child)}"
          unfolding split_j [of "\<lambda>j. j < length (h ! this) \<and> (h ! this) ! j = Some _
              \<and> isChildOf (ds ! _) (ds ! child)"]
          using Some isc True by auto
        then have "set (set_values rm')
            = set (set_values rm)
              \<union> {e. \<exists>j. i \<le> j \<and> j < length (h ! this) \<and> (h ! this) ! j = Some e
                       \<and> isChildOf (ds ! e) (ds ! child)}"
          using ih c same by (simp add: set_values_set_add)
        then show ?thesis using ih c frame by blast
      qed
    qed
  qed
qed

lemma entries_edges:
  "this < length h \<Longrightarrow> (this, e) \<in> edges h \<longleftrightarrow> (\<exists>j. j < length (h ! this) \<and> (h ! this) ! j = Some e)"
  by (auto simp: edges_def in_set_conv_nth)

lemma edges_same:
  "length h' = length h \<Longrightarrow> \<forall>y. y \<noteq> this \<longrightarrow> h' ! y = h ! y \<Longrightarrow> p \<noteq> this
     \<Longrightarrow> (p, c) \<in> edges h' \<longleftrightarrow> (p, c) \<in> edges h"
  by (simp add: edges_def)

lemma nth_fold_delete:
  "y \<noteq> t \<Longrightarrow> fold (\<lambda>deck h'. children_delete h' t deck) xs h ! y = h ! y"
  by (induction xs arbitrary: h) (simp_all add: children_delete_def)

lemma nth_children_add: "y \<noteq> t \<Longrightarrow> children_add h t c ! y = h ! y"
  by (simp add: children_add_def)

lemma addChild_antichain:
  assumes rk: "ranked ds rank"
  shows "addChild n ds h this child = Some h' \<Longrightarrow> heap_ok ds h \<Longrightarrow> antichain ds h
     \<Longrightarrow> (this, child) \<in> child_rel ds
     \<Longrightarrow> antichain ds h' \<and> (\<forall>y. rank this < rank y \<longrightarrow> h' ! y = h ! y)"
proof (induction n arbitrary: h this child h')
  case 0
  then show ?case by simp
next
  case (Suc n)
  have call: "\<forall>h a b h'. heap_ok ds h \<and> antichain ds h \<and> (a, b) \<in> child_rel ds
        \<and> addChild n ds h a b = Some h'
      \<longrightarrow> heap_ok ds h' \<and> antichain ds h' \<and> (\<forall>y. rank a < rank y \<longrightarrow> h' ! y = h ! y)"
    using Suc.IH addChild_ok by blast
  have ids: "this < length ds" "child < length ds"
    using Suc.prems(4) by (simp_all add: child_rel_def)
  have len: "this < length h" using Suc.prems(2) ids by (simp add: heap_ok_def)
  show ?case
  proof (cases "set_has (h ! this) child")
    case True
    then have "h' = h" using Suc.prems(1) by simp
    then show ?thesis using Suc.prems(3) by simp
  next
    case False
    then obtain h1 added where
      n1: "addChild_nest (addChild n ds) ds n h this child 0 False = Some (h1, added)"
      using Suc.prems(1) by (auto split: option.splits)
    note f1 = addChild_nest_frame [OF rk call n1 Suc.prems(2,3) ids]
    show ?thesis
    proof (cases added)
      case True
      then have "h' = h1" using Suc.prems(1) False n1 by simp
      then show ?thesis using f1 by (simp add: less_imp_le)
    next
      case nadded: False
      then have h1: "h1 = h" using f1 by blast
      have above: "\<And>e. (this, e) \<in> edges h \<Longrightarrow> \<not> isChildOf (ds ! child) (ds ! e)"
        using f1 nadded len by (auto simp: entries_edges)
      obtain h2 rm where
        n2: "addChild_adopt (addChild n ds) ds n h this child 0 [] = Some (h2, rm)"
        using Suc.prems(1) False n1 nadded h1 by (auto split: option.splits)
      note f2 = addChild_adopt_frame [OF rk call n2 Suc.prems(2,3,4)]
      have same: "h2 ! this = h ! this" using f2 by simp
      have len2: "this < length h2" using f2 ids by (simp add: heap_ok_def)
      have rm: "set (set_values rm) = {e. (this, e) \<in> edges h \<and> isChildOf (ds ! e) (ds ! child)}"
        using f2 len by (auto simp: entries_edges set_values_def)
      have kids2: "\<And>e. (this, e) \<in> edges h2 \<longleftrightarrow> (this, e) \<in> edges h"
        using same len len2 by (simp add: edges_def)
      have h': "h' = children_add (fold (\<lambda>deck h'. children_delete h' this deck) (set_values rm) h2)
                  this child"
        using Suc.prems(1) False n1 nadded n2 h1 by simp
      have e': "edges h' = insert (this, child) (edges h2 - {this} \<times> set (set_values rm))"
        unfolding h' using len2 by (simp add: edges_children_add edges_fold_delete)
      have ac2: "antichain ds h2" using f2 by simp
      have "antichain ds h'"
        unfolding antichain_def
      proof (intro allI impI)
        fix p c c' assume a: "(p, c) \<in> edges h' \<and> (p, c') \<in> edges h'"
        show "\<not> isChildOf (ds ! c) (ds ! c')"
        proof (cases "p = this")
          case False
          then have "(p, c) \<in> edges h2" "(p, c') \<in> edges h2" using a e' by auto
          then show ?thesis using ac2 unfolding antichain_def by blast
        next
          case True
          have c: "c = child \<or> ((this, c) \<in> edges h \<and> \<not> isChildOf (ds ! c) (ds ! child))"
            using a True e' rm kids2 by auto
          have c': "c' = child \<or> ((this, c') \<in> edges h \<and> \<not> isChildOf (ds ! c') (ds ! child))"
            using a True e' rm kids2 by auto
          show ?thesis
          proof (cases "c = child")
            case True
            then show ?thesis using c' above by auto
          next
            case False
            then have old: "(this, c) \<in> edges h" "\<not> isChildOf (ds ! c) (ds ! child)"
              using c by simp_all
            show ?thesis
            proof (cases "c' = child")
              case True
              then show ?thesis using old by simp
            next
              case False
              then have "(this, c') \<in> edges h2" using c' kids2 by simp
              moreover have "(this, c) \<in> edges h2" using old kids2 by simp
              ultimately show ?thesis using ac2 unfolding antichain_def by blast
            qed
          qed
        qed
      qed
      moreover have "\<forall>y. rank this < rank y \<longrightarrow> h' ! y = h ! y"
      proof (intro allI impI)
        fix y assume y: "rank this < rank y"
        then have "y \<noteq> this" by auto
        then have "h' ! y = h2 ! y"
          unfolding h' by (simp add: nth_children_add nth_fold_delete)
        then show "h' ! y = h ! y" using f2 y by (simp add: less_imp_le)
      qed
      ultimately show ?thesis by blast
    qed
  qed
qed

lemma hierarchy_others_antichain:
  assumes rk: "ranked ds rank"
  shows "hierarchy_others fuel ds deck others (h, rm) = Some (h', rm') \<Longrightarrow> heap_ok ds h
   \<Longrightarrow> antichain ds h \<Longrightarrow> deck < length ds \<Longrightarrow> \<forall>other \<in> set others. other < length ds
   \<Longrightarrow> antichain ds h'"
proof (induction others arbitrary: h rm)
  case Nil
  then show ?case by simp
next
  case (Cons other others)
  have rest: "\<forall>other \<in> set others. other < length ds" using Cons.prems(5) by simp
  show ?case
  proof (cases "deck \<noteq> other \<and> isChildOf (ds ! deck) (ds ! other)")
    case False
    then have "hierarchy_others fuel ds deck others (h, rm) = Some (h', rm')"
      using Cons.prems(1) by (auto split: if_splits)
    from Cons.IH [OF this Cons.prems(2,3,4) rest] show ?thesis .
  next
    case True
    then obtain h1 where a: "addChild fuel ds h other deck = Some h1"
      and r: "hierarchy_others fuel ds deck others (h1, set_add rm deck) = Some (h', rm')"
      using Cons.prems(1) by (auto split: option.splits)
    have rel: "(other, deck) \<in> child_rel ds"
      using True Cons.prems by (simp add: child_rel_def)
    have ok1: "heap_ok ds h1" using addChild_ok [OF a Cons.prems(2) rel] .
    have ac1: "antichain ds h1"
      using addChild_antichain [OF rk a Cons.prems(2,3) rel] by simp
    from Cons.IH [OF r ok1 ac1 Cons.prems(4) rest] show ?thesis .
  qed
qed

lemma hierarchy_decks_antichain:
  assumes rk: "ranked ds rank"
  shows "hierarchy_decks fuel ds all rest (h, rm) = Some (h', rm') \<Longrightarrow> heap_ok ds h
   \<Longrightarrow> antichain ds h \<Longrightarrow> \<forall>d \<in> set rest. d < length ds \<Longrightarrow> \<forall>d \<in> set all. d < length ds
   \<Longrightarrow> antichain ds h'"
proof (induction rest arbitrary: h rm)
  case Nil
  then show ?case by simp
next
  case (Cons deck rest)
  then obtain h1 rm1 where o: "hierarchy_others fuel ds deck all (h, rm) = Some (h1, rm1)"
    and r: "hierarchy_decks fuel ds all rest (h1, rm1) = Some (h', rm')"
    by (auto split: option.splits)
  have d: "deck < length ds" using Cons.prems(4) by simp
  have ok1: "heap_ok ds h1"
    using hierarchy_others_ok [OF o Cons.prems(2) d Cons.prems(5)] by simp
  have ac1: "antichain ds h1"
    using hierarchy_others_antichain [OF rk o Cons.prems(2,3) d Cons.prems(5)] .
  have rest: "\<forall>d \<in> set rest. d < length ds" using Cons.prems(4) by simp
  from Cons.IH [OF r ok1 ac1 rest Cons.prems(5)] show ?case .
qed

lemma buildDeckHierarchy_antichain:
  assumes rk: "ranked ds rank" and run: "buildDeckHierarchy fuel ds = Some r"
  shows "antichain ds (snd r)"
proof -
  from run obtain h rm where
    run': "hierarchy_decks fuel ds [0..<length ds] [0..<length ds] (replicate (length ds) [], [])
            = Some (h, rm)"
    and r: "snd r = h"
    by (auto simp: buildDeckHierarchy_def Let_def split: option.splits)
  have ok0: "heap_ok ds (replicate (length ds) [])"
    by (simp add: heap_ok_def)
  have ac0: "antichain ds (replicate (length ds) [])"
    by (simp add: antichain_def)
  have ids: "\<forall>d \<in> set [0..<length ds]. d < length ds" by simp
  show ?thesis
    using hierarchy_decks_antichain [OF rk run' ok0 ac0 ids ids] r by simp
qed

text \<open>
  With a transitive \<open>isChildOf\<close> in addition, the heap records exactly the pairs with
  no deck in between.
\<close>

lemma buildDeckHierarchy_cover:
  assumes rk: "ranked ds rank" and tr: "trans (child_rel ds)"
    and run: "buildDeckHierarchy fuel ds = Some r"
  shows "edges (snd r) = cover ds"
proof -
  have ok: "edges (snd r) \<subseteq> child_rel ds"
    using buildDeckHierarchy_ok(1) [OF run] by (simp add: heap_ok_def)
  have ac: "antichain ds (snd r)"
    using buildDeckHierarchy_antichain [OF rk run] .
  have reach: "(edges (snd r))\<^sup>+ = child_rel ds"
    using buildDeckHierarchy_reach [OF rk run] tr by simp
  have first: "\<exists>x. (p, x) \<in> edges (snd r) \<and> (x = c \<or> (x, c) \<in> child_rel ds)"
    if "(p, c) \<in> child_rel ds" for p c
  proof -
    from that have "(p, c) \<in> (edges (snd r))\<^sup>+" using reach by simp
    then obtain x where x: "(p, x) \<in> edges (snd r)" "(x, c) \<in> (edges (snd r))\<^sup>*"
      by (meson tranclD)
    from x(2) have "x = c \<or> (x, c) \<in> (edges (snd r))\<^sup>+"
      by (meson rtranclD)
    then show ?thesis using x(1) reach by blast
  qed
  show ?thesis
  proof (intro set_eqI iffI)
    fix q assume q: "q \<in> edges (snd r)"
    obtain p c where pc: "q = (p, c)" by (cases q)
    have rel: "(p, c) \<in> child_rel ds" using q pc ok by blast
    have "\<not> (\<exists>m. (p, m) \<in> child_rel ds \<and> (m, c) \<in> child_rel ds)"
    proof
      assume "\<exists>m. (p, m) \<in> child_rel ds \<and> (m, c) \<in> child_rel ds"
      then obtain m where m: "(p, m) \<in> child_rel ds" "(m, c) \<in> child_rel ds" by blast
      from first [OF m(1)] obtain x where
        x: "(p, x) \<in> edges (snd r)" "x = m \<or> (x, m) \<in> child_rel ds"
        by blast
      then have "(x, c) \<in> child_rel ds"
        using m(2) tr by (meson transD)
      then have "isChildOf (ds ! c) (ds ! x)" by (simp add: child_rel_def)
      then show False using ac x(1) q pc unfolding antichain_def by blast
    qed
    then show "q \<in> cover ds" using rel pc by (simp add: cover_def)
  next
    fix q assume q: "q \<in> cover ds"
    obtain p c where pc: "q = (p, c)" by (cases q)
    have rel: "(p, c) \<in> child_rel ds"
      and none: "\<not> (\<exists>m. (p, m) \<in> child_rel ds \<and> (m, c) \<in> child_rel ds)"
      using q pc by (simp_all add: cover_def)
    from first [OF rel] obtain x where
      x: "(p, x) \<in> edges (snd r)" "x = c \<or> (x, c) \<in> child_rel ds"
      by blast
    then have "x = c" using none ok by blast
    then show "q \<in> edges (snd r)" using x(1) pc by simp
  qed
qed

section \<open>The build returns when isChildOf has no cycle\<close>

lemma addChild_nest_more:
  assumes "addChild_nest (addChild n ds) ds n h this child i added = Some r"
    and "n \<le> m" and "n \<le> m'"
  shows "addChild_nest (addChild m' ds) ds m h this child i added = Some r"
proof -
  have "addChild m' ds h a b = Some r" if "addChild n ds h a b = Some r" for h a b r
    using addChild_mono [OF that assms(3)] .
  then show ?thesis
    using addChild_nest_mono [where call = "addChild n ds" and call' = "addChild m' ds"]
      assms(1,2) by blast
qed

lemma addChild_adopt_more:
  assumes "addChild_adopt (addChild n ds) ds n h this child i rm = Some r"
    and "n \<le> m" and "n \<le> m'"
  shows "addChild_adopt (addChild m' ds) ds m h this child i rm = Some r"
proof -
  have "addChild m' ds h a b = Some r" if "addChild n ds h a b = Some r" for h a b r
    using addChild_mono [OF that assms(3)] .
  then show ?thesis
    using addChild_adopt_mono [where call = "addChild n ds" and call' = "addChild m' ds"]
      assms(1,2) by blast
qed

lemma addChild_spec:
  assumes rk: "ranked ds rank"
  shows "\<forall>h a b h'. heap_ok ds h \<and> antichain ds h \<and> (a, b) \<in> child_rel ds
        \<and> addChild n ds h a b = Some h'
      \<longrightarrow> heap_ok ds h' \<and> antichain ds h' \<and> (\<forall>y. rank a < rank y \<longrightarrow> h' ! y = h ! y)"
  using addChild_ok addChild_antichain [OF rk] by blast

lemma addChild_nest_terminates:
  assumes rk: "ranked ds rank"
    and below: "\<forall>h x c. heap_ok ds h \<and> antichain ds h \<and> (x, c) \<in> child_rel ds
        \<and> rank x < rank this \<longrightarrow> (\<exists>n h'. addChild n ds h x c = Some h')"
  shows "heap_ok ds h \<Longrightarrow> antichain ds h \<Longrightarrow> this < length ds \<Longrightarrow> child < length ds
    \<Longrightarrow> length (h ! this) - i = k
    \<Longrightarrow> \<exists>n r. addChild_nest (addChild n ds) ds n h this child i added = Some r"
proof (induction k arbitrary: h i added)
  case 0
  then have "addChild_nest (addChild (Suc 0) ds) ds (Suc 0) h this child i added = Some (h, added)"
    by simp
  then show ?case by blast
next
  case (Suc k)
  have i: "i < length (h ! this)" and k: "length (h ! this) - Suc i = k"
    using Suc.prems(5) by simp_all
  have len: "this < length h" using Suc.prems by (simp add: heap_ok_def)
  have skip: "\<exists>n r. addChild_nest (addChild n ds) ds n h this child i added = Some r"
    if same: "\<And>call n. addChild_nest call ds (Suc n) h this child i added
        = addChild_nest call ds n h this child (Suc i) added"
  proof -
    from Suc.IH [OF Suc.prems(1-4) k] obtain n r where
      "addChild_nest (addChild n ds) ds n h this child (Suc i) added = Some r"
      by blast
    then have "addChild_nest (addChild (Suc n) ds) ds n h this child (Suc i) added = Some r"
      by (rule addChild_nest_more) simp_all
    then have "addChild_nest (addChild (Suc n) ds) ds (Suc n) h this child i added = Some r"
      using same by simp
    then show ?thesis by blast
  qed
  show ?case
  proof (cases "(h ! this) ! i")
    case None
    then show ?thesis using skip i by simp
  next
    case (Some existing)
    have te: "(this, existing) \<in> edges h"
      using edges_nth [OF i len Some] .
    have ex: "existing < length ds"
      using heap_ok_edge [OF Suc.prems(1) te] by simp
    show ?thesis
    proof (cases "isChildOf (ds ! child) (ds ! existing)")
      case False
      then show ?thesis using skip i Some by simp
    next
      case True
      have rel: "(existing, child) \<in> child_rel ds"
        using True ex Suc.prems by (simp add: child_rel_def)
      have lt: "rank existing < rank this"
        using ranked_edge [OF rk Suc.prems(1) te] .
      obtain n1 h1 where c1: "addChild n1 ds h existing child = Some h1"
        using below Suc.prems(1,2) rel lt by blast
      have s1: "heap_ok ds h1 \<and> antichain ds h1 \<and> (\<forall>y. rank existing < rank y \<longrightarrow> h1 ! y = h ! y)"
        using addChild_spec [OF rk] Suc.prems(1,2) rel c1 by blast
      then have same: "h1 ! this = h ! this" using lt by blast
      have k1: "length (h1 ! this) - Suc i = k" using k same by simp
      from Suc.IH [OF _ _ Suc.prems(3,4) k1, of True] s1 obtain n2 r where
        l2: "addChild_nest (addChild n2 ds) ds n2 h1 this child (Suc i) True = Some r"
        by blast
      let ?N = "max n1 n2"
      have a: "addChild (Suc ?N) ds h existing child = Some h1"
        using c1 by (rule addChild_mono) simp
      have b: "addChild_nest (addChild (Suc ?N) ds) ds ?N h1 this child (Suc i) True = Some r"
        using l2 by (rule addChild_nest_more) simp_all
      have "addChild_nest (addChild (Suc ?N) ds) ds (Suc ?N) h this child i added = Some r"
        using i Some True a b by simp
      then show ?thesis by blast
    qed
  qed
qed

lemma addChild_adopt_terminates:
  assumes rk: "ranked ds rank"
    and below: "\<forall>h x c. heap_ok ds h \<and> antichain ds h \<and> (x, c) \<in> child_rel ds
        \<and> rank x < rank this \<longrightarrow> (\<exists>n h'. addChild n ds h x c = Some h')"
  shows "heap_ok ds h \<Longrightarrow> antichain ds h \<Longrightarrow> (this, child) \<in> child_rel ds
    \<Longrightarrow> length (h ! this) - i = k
    \<Longrightarrow> \<exists>n r. addChild_adopt (addChild n ds) ds n h this child i rm = Some r"
proof (induction k arbitrary: h i rm)
  case 0
  then have "addChild_adopt (addChild (Suc 0) ds) ds (Suc 0) h this child i rm = Some (h, rm)"
    by simp
  then show ?case by blast
next
  case (Suc k)
  have ids: "this < length ds" "child < length ds"
    using Suc.prems(3) by (simp_all add: child_rel_def)
  have lt: "rank child < rank this"
    using rk Suc.prems(3) by (simp add: ranked_def)
  have i: "i < length (h ! this)" and k: "length (h ! this) - Suc i = k"
    using Suc.prems(4) by simp_all
  have len: "this < length h" using Suc.prems ids by (simp add: heap_ok_def)
  have skip: "\<exists>n r. addChild_adopt (addChild n ds) ds n h this child i rm = Some r"
    if same: "\<And>call n. addChild_adopt call ds (Suc n) h this child i rm
        = addChild_adopt call ds n h this child (Suc i) rm"
  proof -
    from Suc.IH [OF Suc.prems(1-3) k] obtain n r where
      "addChild_adopt (addChild n ds) ds n h this child (Suc i) rm = Some r"
      by blast
    then have "addChild_adopt (addChild (Suc n) ds) ds n h this child (Suc i) rm = Some r"
      by (rule addChild_adopt_more) simp_all
    then have "addChild_adopt (addChild (Suc n) ds) ds (Suc n) h this child i rm = Some r"
      using same by simp
    then show ?thesis by blast
  qed
  show ?case
  proof (cases "(h ! this) ! i")
    case None
    then show ?thesis using skip i by simp
  next
    case (Some existing)
    have te: "(this, existing) \<in> edges h"
      using edges_nth [OF i len Some] .
    have ex: "existing < length ds"
      using heap_ok_edge [OF Suc.prems(1) te] by simp
    show ?thesis
    proof (cases "isChildOf (ds ! existing) (ds ! child)")
      case False
      then show ?thesis using skip i Some by simp
    next
      case True
      have rel: "(child, existing) \<in> child_rel ds"
        using True ex ids by (simp add: child_rel_def)
      obtain n1 h1 where c1: "addChild n1 ds h child existing = Some h1"
        using below Suc.prems(1,2) rel lt by blast
      have s1: "heap_ok ds h1 \<and> antichain ds h1 \<and> (\<forall>y. rank child < rank y \<longrightarrow> h1 ! y = h ! y)"
        using addChild_spec [OF rk] Suc.prems(1,2) rel c1 by blast
      then have same: "h1 ! this = h ! this" using lt by blast
      have k1: "length (h1 ! this) - Suc i = k" using k same by simp
      from Suc.IH [OF _ _ Suc.prems(3) k1, of "set_add rm existing"] s1 obtain n2 r where
        l2: "addChild_adopt (addChild n2 ds) ds n2 h1 this child (Suc i) (set_add rm existing)
               = Some r"
        by blast
      let ?N = "max n1 n2"
      have a: "addChild (Suc ?N) ds h child existing = Some h1"
        using c1 by (rule addChild_mono) simp
      have b: "addChild_adopt (addChild (Suc ?N) ds) ds ?N h1 this child (Suc i)
          (set_add rm existing) = Some r"
        using l2 by (rule addChild_adopt_more) simp_all
      have "addChild_adopt (addChild (Suc ?N) ds) ds (Suc ?N) h this child i rm = Some r"
        using i Some True a b by simp
      then show ?thesis by blast
    qed
  qed
qed

lemma addChild_terminates:
  assumes rk: "ranked ds rank"
  shows "heap_ok ds h \<Longrightarrow> antichain ds h \<Longrightarrow> (this, child) \<in> child_rel ds
     \<Longrightarrow> \<exists>n h'. addChild n ds h this child = Some h'"
proof (induction "rank this" arbitrary: h this child rule: less_induct)
  case less
  have below: "\<forall>h x c. heap_ok ds h \<and> antichain ds h \<and> (x, c) \<in> child_rel ds
        \<and> rank x < rank this \<longrightarrow> (\<exists>n h'. addChild n ds h x c = Some h')"
    using less.hyps by blast
  have ids: "this < length ds" "child < length ds"
    using less.prems(3) by (simp_all add: child_rel_def)
  show ?case
  proof (cases "set_has (h ! this) child")
    case True
    then have "addChild (Suc 0) ds h this child = Some h" by simp
    then show ?thesis by blast
  next
    case False
    from addChild_nest_terminates [OF rk below less.prems(1,2) ids refl, of 0 False]
    obtain n1 h1 added where
      l1: "addChild_nest (addChild n1 ds) ds n1 h this child 0 False = Some (h1, added)"
      by auto
    note f1 = addChild_nest_frame [OF rk addChild_spec [OF rk] l1 less.prems(1,2) ids]
    show ?thesis
    proof (cases added)
      case True
      then have "addChild (Suc n1) ds h this child = Some h1"
        using False l1 by simp
      then show ?thesis by blast
    next
      case nadded: False
      have ok1: "heap_ok ds h1" "antichain ds h1" using f1 by simp_all
      from addChild_adopt_terminates [OF rk below ok1 less.prems(3) refl, of 0 "[]"]
      obtain n2 h2 rm where
        l2: "addChild_adopt (addChild n2 ds) ds n2 h1 this child 0 [] = Some (h2, rm)"
        by auto
      let ?N = "max n1 n2"
      have a: "addChild_nest (addChild ?N ds) ds ?N h this child 0 False = Some (h1, added)"
        using l1 by (rule addChild_nest_more) simp_all
      have b: "addChild_adopt (addChild ?N ds) ds ?N h1 this child 0 [] = Some (h2, rm)"
        using l2 by (rule addChild_adopt_more) simp_all
      have "\<exists>h'. addChild (Suc ?N) ds h this child = Some h'"
        using False a b nadded by simp
      then show ?thesis by blast
    qed
  qed
qed

lemma hierarchy_others_terminates:
  assumes rk: "ranked ds rank"
  shows "heap_ok ds h \<Longrightarrow> antichain ds h \<Longrightarrow> deck < length ds
   \<Longrightarrow> \<forall>other \<in> set others. other < length ds
   \<Longrightarrow> \<exists>n r. hierarchy_others n ds deck others (h, rm) = Some r"
proof (induction others arbitrary: h rm)
  case Nil
  then show ?case by simp
next
  case (Cons other others)
  have rest: "\<forall>other \<in> set others. other < length ds" using Cons.prems(4) by simp
  show ?case
  proof (cases "deck \<noteq> other \<and> isChildOf (ds ! deck) (ds ! other)")
    case False
    from Cons.IH [OF Cons.prems(1-3) rest] obtain n r where
      "hierarchy_others n ds deck others (h, rm) = Some r"
      by blast
    then have "hierarchy_others n ds deck (other # others) (h, rm) = Some r"
      using False by auto
    then show ?thesis by blast
  next
    case True
    have rel: "(other, deck) \<in> child_rel ds"
      using True Cons.prems by (simp add: child_rel_def)
    from addChild_terminates [OF rk Cons.prems(1,2) rel] obtain n1 h1 where
      a: "addChild n1 ds h other deck = Some h1"
      by blast
    have ok1: "heap_ok ds h1" using addChild_ok [OF a Cons.prems(1) rel] .
    have ac1: "antichain ds h1"
      using addChild_antichain [OF rk a Cons.prems(1,2) rel] by simp
    from Cons.IH [OF ok1 ac1 Cons.prems(3) rest] obtain n2 r where
      l: "hierarchy_others n2 ds deck others (h1, set_add rm deck) = Some r"
      by blast
    let ?N = "max n1 n2"
    have "addChild ?N ds h other deck = Some h1"
      using a by (rule addChild_mono) simp
    moreover have "hierarchy_others ?N ds deck others (h1, set_add rm deck) = Some r"
      using l by (rule hierarchy_others_mono) simp
    ultimately have "hierarchy_others ?N ds deck (other # others) (h, rm) = Some r"
      using True by simp
    then show ?thesis by blast
  qed
qed

lemma hierarchy_decks_terminates:
  assumes rk: "ranked ds rank"
  shows "heap_ok ds h \<Longrightarrow> antichain ds h \<Longrightarrow> \<forall>d \<in> set rest. d < length ds
   \<Longrightarrow> \<forall>d \<in> set all. d < length ds
   \<Longrightarrow> \<exists>n r. hierarchy_decks n ds all rest (h, rm) = Some r"
proof (induction rest arbitrary: h rm)
  case Nil
  then show ?case by simp
next
  case (Cons deck rest)
  have d: "deck < length ds" using Cons.prems(3) by simp
  have rest: "\<forall>d \<in> set rest. d < length ds" using Cons.prems(3) by simp
  from hierarchy_others_terminates [OF rk Cons.prems(1,2) d Cons.prems(4)] obtain n1 h1 rm1 where
    o: "hierarchy_others n1 ds deck all (h, rm) = Some (h1, rm1)"
    by (metis surj_pair)
  have ok1: "heap_ok ds h1"
    using hierarchy_others_ok [OF o Cons.prems(1) d Cons.prems(4)] by simp
  have ac1: "antichain ds h1"
    using hierarchy_others_antichain [OF rk o Cons.prems(1,2) d Cons.prems(4)] .
  from Cons.IH [OF ok1 ac1 rest Cons.prems(4)] obtain n2 r where
    l: "hierarchy_decks n2 ds all rest (h1, rm1) = Some r"
    by blast
  let ?N = "max n1 n2"
  have "hierarchy_others ?N ds deck all (h, rm) = Some (h1, rm1)"
    using o by (rule hierarchy_others_mono) simp
  moreover have "hierarchy_decks ?N ds all rest (h1, rm1) = Some r"
    using l by (rule hierarchy_decks_mono) simp
  ultimately have "hierarchy_decks ?N ds all (deck # rest) (h, rm) = Some r"
    by simp
  then show ?case by blast
qed

lemma buildDeckHierarchy_terminates:
  assumes rk: "ranked ds rank"
  shows "\<exists>n r. buildDeckHierarchy n ds = Some r"
proof -
  have ok0: "heap_ok ds (replicate (length ds) [])"
    by (simp add: heap_ok_def)
  have ac0: "antichain ds (replicate (length ds) [])"
    by (simp add: antichain_def)
  have ids: "\<forall>d \<in> set [0..<length ds]. d < length ds" by simp
  from hierarchy_decks_terminates [OF rk ok0 ac0 ids ids] obtain n h rm where
    "hierarchy_decks n ds [0..<length ds] [0..<length ds] (replicate (length ds) [], [])
       = Some (h, rm)"
    by (metis surj_pair)
  then have "buildDeckHierarchy n ds
      = Some (fold (\<lambda>deck s. set_delete s deck) (set_values rm) (map Some [0..<length ds]), h)"
    by (simp add: buildDeckHierarchy_def Let_def)
  then show ?thesis by blast
qed

section \<open>The forest when isChildOf is transitive\<close>

lemma transitive_child_rel:
  assumes "\<forall>a \<in> set ds. \<forall>b \<in> set ds. \<forall>c \<in> set ds.
      isChildOf a b \<longrightarrow> isChildOf b c \<longrightarrow> isChildOf a c"
  shows "trans (child_rel ds)"
proof (rule transI)
  fix p m c assume "(p, m) \<in> child_rel ds" "(m, c) \<in> child_rel ds"
  then have ids: "p < length ds" "m < length ds" "c < length ds"
    and rel: "isChildOf (ds ! m) (ds ! p)" "isChildOf (ds ! c) (ds ! m)"
    by (simp_all add: child_rel_def)
  have "isChildOf (ds ! c) (ds ! p)"
    using assms ids rel by (meson nth_mem)
  then show "(p, c) \<in> child_rel ds" using ids by (simp add: child_rel_def)
qed

lemma transitive_ranked:
  assumes "\<forall>a \<in> set ds. \<forall>b \<in> set ds. \<forall>c \<in> set ds.
      isChildOf a b \<longrightarrow> isChildOf b c \<longrightarrow> isChildOf a c"
  shows "ranked ds (\<lambda>i. card {j. j < length ds \<and> isChildOf (ds ! j) (ds ! i)})"
  unfolding ranked_def
proof (intro allI impI)
  fix p c assume "(p, c) \<in> child_rel ds"
  then have ids: "p < length ds" "c < length ds" and rel: "isChildOf (ds ! c) (ds ! p)"
    by (simp_all add: child_rel_def)
  have "{j. j < length ds \<and> isChildOf (ds ! j) (ds ! c)}
      \<subseteq> {j. j < length ds \<and> isChildOf (ds ! j) (ds ! p)}"
    using assms ids rel by (auto intro: nth_mem)
  moreover have "c \<in> {j. j < length ds \<and> isChildOf (ds ! j) (ds ! p)}"
    using ids rel by simp
  moreover have "c \<notin> {j. j < length ds \<and> isChildOf (ds ! j) (ds ! c)}"
    by simp
  ultimately have "{j. j < length ds \<and> isChildOf (ds ! j) (ds ! c)}
      \<subset> {j. j < length ds \<and> isChildOf (ds ! j) (ds ! p)}"
    by blast
  moreover have "finite {j. j < length ds \<and> isChildOf (ds ! j) (ds ! p)}"
    by simp
  ultimately show "card {j. j < length ds \<and> isChildOf (ds ! j) (ds ! c)}
      < card {j. j < length ds \<and> isChildOf (ds ! j) (ds ! p)}"
    by (rule psubset_card_mono [rotated])
qed

lemma cover_decks: "{(ds ! p, ds ! c) | p c. (p, c) \<in> cover ds} = deck_cover (set ds)"
proof (intro set_eqI iffI)
  fix q assume "q \<in> {(ds ! p, ds ! c) | p c. (p, c) \<in> cover ds}"
  then obtain p c where q: "q = (ds ! p, ds ! c)" and pc: "(p, c) \<in> cover ds" by blast
  then have ids: "p < length ds" "c < length ds" and rel: "isChildOf (ds ! c) (ds ! p)"
    and none: "\<And>m. m < length ds \<Longrightarrow> isChildOf (ds ! m) (ds ! p)
        \<Longrightarrow> \<not> isChildOf (ds ! c) (ds ! m)"
    by (auto simp: cover_def child_rel_def)
  have "(ds ! p, ds ! c) \<in> deck_rel (set ds)"
    using ids rel by (simp add: deck_rel_def)
  moreover have "\<not> (\<exists>m. (ds ! p, m) \<in> deck_rel (set ds) \<and> (m, ds ! c) \<in> deck_rel (set ds))"
    using none by (auto simp: deck_rel_def in_set_conv_nth)
  ultimately show "q \<in> deck_cover (set ds)"
    using q by (simp add: deck_cover_def)
next
  fix q assume "q \<in> deck_cover (set ds)"
  then obtain x y where q: "q = (x, y)" and rel: "(x, y) \<in> deck_rel (set ds)"
    and none: "\<And>m. (x, m) \<in> deck_rel (set ds) \<Longrightarrow> (m, y) \<in> deck_rel (set ds) \<Longrightarrow> False"
    by (auto simp: deck_cover_def)
  from rel obtain p c where ids: "p < length ds" "c < length ds" "ds ! p = x" "ds ! c = y"
    and isc: "isChildOf y x"
    by (auto simp: deck_rel_def in_set_conv_nth)
  have "(p, c) \<in> child_rel ds" using ids isc by (simp add: child_rel_def)
  moreover have "\<not> (\<exists>m. (p, m) \<in> child_rel ds \<and> (m, c) \<in> child_rel ds)"
  proof
    assume "\<exists>m. (p, m) \<in> child_rel ds \<and> (m, c) \<in> child_rel ds"
    then obtain m where "m < length ds" "isChildOf (ds ! m) x" "isChildOf y (ds ! m)"
      using ids by (auto simp: child_rel_def)
    then have "(x, ds ! m) \<in> deck_rel (set ds)" "(ds ! m, y) \<in> deck_rel (set ds)"
      using rel by (simp_all add: deck_rel_def)
    then show False using none by blast
  qed
  ultimately have "(p, c) \<in> cover ds" by (simp add: cover_def)
  then show "q \<in> {(ds ! p, ds ! c) | p c. (p, c) \<in> cover ds}"
    using q ids by blast
qed

lemma child_decks_cover:
  assumes tr: "\<forall>a \<in> set ds. \<forall>b \<in> set ds. \<forall>c \<in> set ds.
      isChildOf a b \<longrightarrow> isChildOf b c \<longrightarrow> isChildOf a c"
    and run: "buildDeckHierarchy fuel ds = Some r"
  shows "child_decks ds r = deck_cover (set ds)"
proof -
  have len: "length (snd r) = length ds"
    using buildDeckHierarchy_ok(1) [OF run] by (simp add: heap_ok_def)
  have e: "edges (snd r) = cover ds"
    using buildDeckHierarchy_cover [OF transitive_ranked [OF tr] transitive_child_rel [OF tr] run] .
  have "(p < length ds \<and> c \<in> set (children_of r p)) \<longleftrightarrow> (p, c) \<in> edges (snd r)" for p c
  proof (cases "p < length ds")
    case True
    then show ?thesis using len by (simp add: children_of_edges)
  next
    case False
    then show ?thesis using len by (simp add: edges_def)
  qed
  then have "child_decks ds r = {(ds ! p, ds ! c) | p c. (p, c) \<in> edges (snd r)}"
    unfolding child_decks_def by simp
  then show ?thesis using e cover_decks [of ds] by simp
qed

lemma set_values_append: "set_values (s @ t) = set_values s @ set_values t"
  by (simp add: set_values_def)

lemma distinct_set_add: "distinct (set_values s) \<Longrightarrow> distinct (set_values (set_add s v))"
  by (simp add: set_add_def set_has_def set_values_append set_values_iff) (simp add: set_values_def)

lemma distinct_set_delete: "distinct (set_values s) \<Longrightarrow> distinct (set_values (set_delete s v))"
  by (simp add: set_values_set_delete)

lemma heap_distinct_update:
  assumes "heap_distinct h" "p < length h \<Longrightarrow> distinct (set_values s)"
  shows "heap_distinct (h[p := s])"
  unfolding heap_distinct_def
proof (intro allI impI)
  fix q assume "q < length (h[p := s])"
  then have q: "q < length h" by simp
  show "distinct (set_values (h[p := s] ! q))"
  proof (cases "q = p")
    case True
    then show ?thesis using q assms(2) by simp
  next
    case False
    then show ?thesis using q assms(1) by (simp add: heap_distinct_def)
  qed
qed

lemma heap_distinct_children_add: "heap_distinct h \<Longrightarrow> heap_distinct (children_add h p c)"
  unfolding children_add_def
  by (rule heap_distinct_update) (simp_all add: heap_distinct_def distinct_set_add)

lemma heap_distinct_children_delete: "heap_distinct h \<Longrightarrow> heap_distinct (children_delete h p c)"
  unfolding children_delete_def
  by (rule heap_distinct_update) (simp_all add: heap_distinct_def distinct_set_delete)

lemma heap_distinct_fold_delete:
  "heap_distinct h \<Longrightarrow> heap_distinct (fold (\<lambda>deck h'. children_delete h' p deck) xs h)"
  by (induction xs arbitrary: h) (simp_all add: heap_distinct_children_delete)

lemma addChild_nest_distinct:
  assumes call: "\<forall>h a b h'. heap_distinct h \<and> call h a b = Some h' \<longrightarrow> heap_distinct h'"
  shows "addChild_nest call ds n h this child i added = Some (h', added') \<Longrightarrow> heap_distinct h
    \<Longrightarrow> heap_distinct h'"
proof (induction n arbitrary: h i added)
  case 0
  then show ?case by simp
next
  case (Suc n)
  show ?case
  proof (cases "i < length (h ! this)")
    case False
    then show ?thesis using Suc.prems by simp
  next
    case True
    show ?thesis
    proof (cases "(h ! this) ! i")
      case None
      then show ?thesis using Suc True by simp
    next
      case (Some existing)
      show ?thesis
      proof (cases "isChildOf (ds ! child) (ds ! existing)")
        case False
        then show ?thesis using Suc True Some by simp
      next
        case isc: True
        then obtain h1 where c1: "call h existing child = Some h1"
          and r1: "addChild_nest call ds n h1 this child (Suc i) True = Some (h', added')"
          using Suc.prems(1) True Some by (auto split: option.splits)
        have "heap_distinct h1" using call Suc.prems(2) c1 by blast
        then show ?thesis using Suc.IH[OF r1] by simp
      qed
    qed
  qed
qed

lemma addChild_adopt_distinct:
  assumes call: "\<forall>h a b h'. heap_distinct h \<and> call h a b = Some h' \<longrightarrow> heap_distinct h'"
  shows "addChild_adopt call ds n h this child i rm = Some (h', rm') \<Longrightarrow> heap_distinct h
    \<Longrightarrow> heap_distinct h'"
proof (induction n arbitrary: h i rm)
  case 0
  then show ?case by simp
next
  case (Suc n)
  show ?case
  proof (cases "i < length (h ! this)")
    case False
    then show ?thesis using Suc.prems by simp
  next
    case True
    show ?thesis
    proof (cases "(h ! this) ! i")
      case None
      then show ?thesis using Suc True by simp
    next
      case (Some existing)
      show ?thesis
      proof (cases "isChildOf (ds ! existing) (ds ! child)")
        case False
        then show ?thesis using Suc True Some by simp
      next
        case isc: True
        then obtain h1 where c1: "call h child existing = Some h1"
          and r1: "addChild_adopt call ds n h1 this child (Suc i) (set_add rm existing) = Some (h', rm')"
          using Suc.prems(1) True Some by (auto split: option.splits)
        have "heap_distinct h1" using call Suc.prems(2) c1 by blast
        then show ?thesis using Suc.IH[OF r1] by simp
      qed
    qed
  qed
qed

lemma addChild_distinct:
  "addChild n ds h this child = Some h' \<Longrightarrow> heap_distinct h \<Longrightarrow> heap_distinct h'"
proof (induction n arbitrary: h this child h')
  case 0
  then show ?case by simp
next
  case (Suc n)
  have call: "\<forall>h a b h'. heap_distinct h \<and> addChild n ds h a b = Some h' \<longrightarrow> heap_distinct h'"
    using Suc.IH by blast
  show ?case
  proof (cases "set_has (h ! this) child")
    case True
    then show ?thesis using Suc.prems by simp
  next
    case False
    then obtain h1 added where
      n1: "addChild_nest (addChild n ds) ds n h this child 0 False = Some (h1, added)"
      using Suc.prems(1) by (auto split: option.splits)
    have ok1: "heap_distinct h1"
      using addChild_nest_distinct[OF call n1 Suc.prems(2)] .
    show ?thesis
    proof (cases added)
      case True
      then show ?thesis using Suc.prems(1) False n1 ok1 by simp
    next
      case nadded: False
      then obtain h2 rm where
        n2: "addChild_adopt (addChild n ds) ds n h1 this child 0 [] = Some (h2, rm)"
        using Suc.prems(1) False n1 by (auto split: option.splits)
      have ok2: "heap_distinct h2"
        using addChild_adopt_distinct[OF call n2 ok1] .
      have "h' = children_add (fold (\<lambda>deck h'. children_delete h' this deck) (set_values rm) h2) this child"
        using Suc.prems(1) False n1 nadded n2 by simp
      then show ?thesis
        using heap_distinct_children_add[OF heap_distinct_fold_delete[OF ok2]] by simp
    qed
  qed
qed

lemma hierarchy_others_distinct:
  "hierarchy_others fuel ds deck others (h, rm) = Some (h', rm') \<Longrightarrow> heap_distinct h
   \<Longrightarrow> heap_distinct h'"
proof (induction others arbitrary: h rm)
  case Nil
  then show ?case by simp
next
  case (Cons other others)
  show ?case
  proof (cases "deck \<noteq> other \<and> isChildOf (ds ! deck) (ds ! other)")
    case False
    then have "hierarchy_others fuel ds deck others (h, rm) = Some (h', rm')"
      using Cons.prems(1) by (auto split: if_splits)
    from Cons.IH[OF this Cons.prems(2)] show ?thesis .
  next
    case True
    then obtain h1 where a: "addChild fuel ds h other deck = Some h1"
      and r: "hierarchy_others fuel ds deck others (h1, set_add rm deck) = Some (h', rm')"
      using Cons.prems(1) by (auto split: option.splits)
    from Cons.IH[OF r addChild_distinct[OF a Cons.prems(2)]] show ?thesis .
  qed
qed

lemma hierarchy_decks_distinct:
  "hierarchy_decks fuel ds all rest (h, rm) = Some (h', rm') \<Longrightarrow> heap_distinct h
   \<Longrightarrow> heap_distinct h'"
proof (induction rest arbitrary: h rm)
  case Nil
  then show ?case by simp
next
  case (Cons deck rest)
  then obtain h1 rm1 where o: "hierarchy_others fuel ds deck all (h, rm) = Some (h1, rm1)"
    and r: "hierarchy_decks fuel ds all rest (h1, rm1) = Some (h', rm')"
    by (auto split: option.splits)
  from Cons.IH[OF r hierarchy_others_distinct[OF o Cons.prems(2)]] show ?case .
qed

lemma buildDeckHierarchy_distinct:
  assumes "buildDeckHierarchy fuel ds = Some r"
  shows "heap_distinct (snd r)"
proof -
  from assms obtain h rm where
    run: "hierarchy_decks fuel ds [0..<length ds] [0..<length ds] (replicate (length ds) [], [])
            = Some (h, rm)"
    and r: "snd r = h"
    by (auto simp: buildDeckHierarchy_def Let_def split: option.splits)
  have "heap_distinct (replicate (length ds) [])"
    by (simp add: heap_distinct_def set_values_def)
  from hierarchy_decks_distinct[OF run this] r show ?thesis by simp
qed

lemma cover_deck_cover:
  assumes "p < length ds"
  shows "(p, c) \<in> cover ds \<longleftrightarrow> c < length ds \<and> (ds ! p, ds ! c) \<in> deck_cover (set ds)"
proof
  assume pc: "(p, c) \<in> cover ds"
  then have "c < length ds" by (simp add: cover_def child_rel_def)
  moreover have "(ds ! p, ds ! c) \<in> {(ds ! p, ds ! c) | p c. (p, c) \<in> cover ds}"
    using pc by blast
  ultimately show "c < length ds \<and> (ds ! p, ds ! c) \<in> deck_cover (set ds)"
    unfolding cover_decks by simp
next
  assume a: "c < length ds \<and> (ds ! p, ds ! c) \<in> deck_cover (set ds)"
  then have rel: "isChildOf (ds ! c) (ds ! p)"
    and none: "\<And>m. (ds ! p, m) \<in> deck_rel (set ds) \<Longrightarrow> (m, ds ! c) \<in> deck_rel (set ds) \<Longrightarrow> False"
    by (auto simp: deck_cover_def deck_rel_def)
  have "(p, c) \<in> child_rel ds" using assms a rel by (simp add: child_rel_def)
  moreover have "\<not> (\<exists>m. (p, m) \<in> child_rel ds \<and> (m, c) \<in> child_rel ds)"
  proof
    assume "\<exists>m. (p, m) \<in> child_rel ds \<and> (m, c) \<in> child_rel ds"
    then obtain m where "m < length ds" "isChildOf (ds ! m) (ds ! p)" "isChildOf (ds ! c) (ds ! m)"
      by (auto simp: child_rel_def)
    then have "(ds ! p, ds ! m) \<in> deck_rel (set ds)" "(ds ! m, ds ! c) \<in> deck_rel (set ds)"
      using assms a by (simp_all add: deck_rel_def)
    then show False using none by blast
  qed
  ultimately show "(p, c) \<in> cover ds" by (simp add: cover_def)
qed

lemma child_decks_of_cover:
  assumes tr: "\<forall>a \<in> set ds. \<forall>b \<in> set ds. \<forall>c \<in> set ds.
      isChildOf a b \<longrightarrow> isChildOf b c \<longrightarrow> isChildOf a c"
    and run: "buildDeckHierarchy fuel ds = Some r"
    and p: "p < length ds"
  shows "mset (child_decks_of ds r p)
       = filter_mset (\<lambda>e. (ds ! p, e) \<in> deck_cover (set ds)) (mset ds)"
proof -
  let ?Q = "\<lambda>e. (ds ! p, e) \<in> deck_cover (set ds)"
  have len: "length (snd r) = length ds"
    using buildDeckHierarchy_ok(1) [OF run] by (simp add: heap_ok_def)
  have e: "edges (snd r) = cover ds"
    using buildDeckHierarchy_cover [OF transitive_ranked [OF tr] transitive_child_rel [OF tr] run] .
  have dist: "distinct (children_of r p)"
    using buildDeckHierarchy_distinct [OF run] p len
    by (simp add: heap_distinct_def children_of_def)
  have "c \<in> set (children_of r p) \<longleftrightarrow> c \<in> set (filter (\<lambda>c. ?Q (ds ! c)) [0..<length ds])" for c
  proof -
    have "c \<in> set (children_of r p) \<longleftrightarrow> (p, c) \<in> cover ds"
      using p len e by (simp add: children_of_edges)
    also have "\<dots> \<longleftrightarrow> c < length ds \<and> ?Q (ds ! c)"
      by (rule cover_deck_cover [OF p])
    finally show ?thesis by simp
  qed
  then have "set (children_of r p) = set (filter (\<lambda>c. ?Q (ds ! c)) [0..<length ds])"
    by (rule set_eqI)
  then have "mset (children_of r p) = mset (filter (\<lambda>c. ?Q (ds ! c)) [0..<length ds])"
    using dist set_eq_iff_mset_eq_distinct [of "children_of r p"
        "filter (\<lambda>c. ?Q (ds ! c)) [0..<length ds]"] distinct_filter [OF distinct_upt]
    by blast
  then have "mset (child_decks_of ds r p)
      = mset (map (\<lambda>c. ds ! c) (filter (\<lambda>c. ?Q (ds ! c)) [0..<length ds]))"
    unfolding child_decks_of_def mset_map by simp
  also have "map (\<lambda>c. ds ! c) (filter (\<lambda>c. ?Q (ds ! c)) [0..<length ds])
      = filter ?Q (map (\<lambda>c. ds ! c) [0..<length ds])"
    by (simp add: filter_map comp_def)
  also have "\<dots> = filter ?Q ds"
    by (simp add: map_nth)
  finally show ?thesis by simp
qed

lemma returns_from:
  assumes "buildDeckHierarchy fuel ds = Some r"
  shows "\<forall>n. buildDeckHierarchy (fuel + n) ds = Some r"
  using buildDeckHierarchy_mono [OF assms] by simp

section \<open>The decks of the forest scenario\<close>

lemma cover_code:
  "cover ds = set [(p, c). p \<leftarrow> [0..<length ds], c \<leftarrow> [0..<length ds],
       isChildOf (ds ! c) (ds ! p)
       \<and> \<not> list_ex (\<lambda>m. isChildOf (ds ! m) (ds ! p) \<and> isChildOf (ds ! c) (ds ! m)) [0..<length ds]]"
  by (auto simp: cover_def child_rel_def list_ex_iff)

lemma forest_transitive:
  "\<forall>a \<in> set forest_decks. \<forall>b \<in> set forest_decks. \<forall>c \<in> set forest_decks.
      isChildOf a b \<longrightarrow> isChildOf b c \<longrightarrow> isChildOf a c"
  by code_simp

lemma forest_cover: "cover forest_decks = {(0, 1), (1, 2), (1, 3), (2, 4)}"
proof -
  have "[(p, c). p \<leftarrow> [0..<length forest_decks], c \<leftarrow> [0..<length forest_decks],
       isChildOf (forest_decks ! c) (forest_decks ! p)
       \<and> \<not> list_ex (\<lambda>m. isChildOf (forest_decks ! m) (forest_decks ! p)
                          \<and> isChildOf (forest_decks ! c) (forest_decks ! m))
             [0..<length forest_decks]]
      = [(0, 1), (1, 2), (1, 3), (2, 4)]"
    by code_simp
  then show ?thesis unfolding cover_code by simp
qed

lemma forest_roots:
  "filter (\<lambda>x. \<not> (\<exists>y \<in> set forest_decks. isChildOf x y)) forest_decks = [emptyDeck ''**'']"
  by code_simp

lemma forest_decks'_perm: "mset forest_decks' = mset forest_decks"
  by (simp add: forest_decks'_def forest_decks_def)

lemma forest_transitive':
  "\<forall>a \<in> set forest_decks'. \<forall>b \<in> set forest_decks'. \<forall>c \<in> set forest_decks'.
      isChildOf a b \<longrightarrow> isChildOf b c \<longrightarrow> isChildOf a c"
proof -
  have sets: "set forest_decks' = set forest_decks"
    using forest_decks'_perm by (metis set_mset_mset)
  show ?thesis unfolding sets by (rule forest_transitive)
qed

section \<open>The claims\<close>

text \<open>
  C1, as stated: after the build no deck is in two \<^verbatim>\<open>children\<close> sets. It fails for the
  decks \<open>Work/**\<close> (deck 0, cards \<open>Work/a.md\<close> and \<open>Work/b.md\<close>), \<open>**/a.md\<close> (deck 1, cards
  \<open>Work/a.md\<close> and \<open>Home/a.md\<close>) and \<open>Work/a.md\<close> (deck 2, card \<open>Work/a.md\<close>): deck 2 is
  a child of both other decks, which stay at top level.
\<close>

theorem single_parent_counterexample:
  "buildDeckHierarchy 3 two_parent_decks = Some ([Some 0, Some 1, None], [[Some 2], [Some 2], []])
   \<and> 2 \<in> set (children_of ([Some 0, Some 1, None], [[Some 2], [Some 2], []]) 0)
   \<and> 2 \<in> set (children_of ([Some 0, Some 1, None], [[Some 2], [Some 2], []]) 1)"
proof -
  have "buildDeckHierarchy 3 two_parent_decks
      = Some ([Some 0, Some 1, None], [[Some 2], [Some 2], []])"
    by code_simp
  then show ?thesis
    by (simp add: children_of_def set_values_def)
qed

text \<open>
  C1, amended: after a build that returns, a deck is at top level exactly when
  \<open>isChildOf\<close> makes it a child of no deck of the input, and every member of the
  \<^verbatim>\<open>children\<close> set of a deck is a child of that deck by \<open>isChildOf\<close> and is not at top
  level: no deck is at top level and in a \<^verbatim>\<open>children\<close> set at once. When \<open>isChildOf\<close>
  has no cycle among the decks, every deck is at top level or in the \<^verbatim>\<open>children\<close> set
  of at least one deck. A deck can be in the \<^verbatim>\<open>children\<close> sets of several decks.
\<close>

theorem root_or_child:
  assumes run: "buildDeckHierarchy fuel ds = Some r"
  shows "(\<forall>d. d \<in> set (roots_of r)
            \<longleftrightarrow> d < length ds \<and> \<not> (\<exists>other < length ds. isChildOf (ds ! d) (ds ! other)))
       \<and> (\<forall>p < length ds. \<forall>c \<in> set (children_of r p).
            c < length ds \<and> isChildOf (ds ! c) (ds ! p) \<and> c \<notin> set (roots_of r))
       \<and> ((\<forall>a \<in> set ds. \<forall>b \<in> set ds. isChildOf a b \<longrightarrow> (rank a :: nat) < rank b)
            \<longrightarrow> (\<forall>d < length ds.
                  d \<in> set (roots_of r) \<or> (\<exists>p < length ds. d \<in> set (children_of r p))))"
proof -
  note ok = buildDeckHierarchy_ok [OF run]
  have len: "length (snd r) = length ds" using ok(1) by (simp add: heap_ok_def)
  have roots: "\<forall>d. d \<in> set (roots_of r)
            \<longleftrightarrow> d < length ds \<and> \<not> (\<exists>other < length ds. isChildOf (ds ! d) (ds ! other))"
    unfolding ok(2) by auto
  have kids: "\<forall>p < length ds. \<forall>c \<in> set (children_of r p).
            c < length ds \<and> isChildOf (ds ! c) (ds ! p) \<and> c \<notin> set (roots_of r)"
  proof (intro allI impI ballI)
    fix p c assume p: "p < length ds" and c: "c \<in> set (children_of r p)"
    then have "(p, c) \<in> edges (snd r)" using len by (simp add: children_of_edges)
    then have "c < length ds \<and> isChildOf (ds ! c) (ds ! p)"
      using heap_ok_edge [OF ok(1)] by blast
    then show "c < length ds \<and> isChildOf (ds ! c) (ds ! p) \<and> c \<notin> set (roots_of r)"
      using roots p by blast
  qed
  have placed: "\<forall>d < length ds.
      d \<in> set (roots_of r) \<or> (\<exists>p < length ds. d \<in> set (children_of r p))"
    if acyclic: "\<forall>a \<in> set ds. \<forall>b \<in> set ds. isChildOf a b \<longrightarrow> rank a < rank b"
  proof (intro allI impI)
    fix d assume d: "d < length ds"
    show "d \<in> set (roots_of r) \<or> (\<exists>p < length ds. d \<in> set (children_of r p))"
    proof (cases "d \<in> set (roots_of r)")
      case True
      then show ?thesis by simp
    next
      case False
      then obtain other where "other < length ds" "isChildOf (ds ! d) (ds ! other)"
        using roots d by blast
      then have "(other, d) \<in> child_rel ds"
        using d by (simp add: child_rel_def)
      then have "(other, d) \<in> (edges (snd r))\<^sup>+"
        using buildDeckHierarchy_reach [OF ranked_decks [OF acyclic] run] by blast
      then obtain p where pd: "(p, d) \<in> edges (snd r)"
        by (meson tranclE)
      then have "p < length ds"
        using heap_ok_edge [OF ok(1)] by blast
      moreover from this have "d \<in> set (children_of r p)"
        using pd len by (simp add: children_of_edges)
      ultimately show ?thesis by blast
    qed
  qed
  show ?thesis using roots kids placed by blast
qed

theorem root_or_child_witness:
  "buildDeckHierarchy 3 two_parent_decks = Some ([Some 0, Some 1, None], [[Some 2], [Some 2], []])
   \<and> 0 \<in> set (roots_of ([Some 0, Some 1, None], [[Some 2], [Some 2], []]))
   \<and> \<not> isChildOf (two_parent_decks ! 0) (two_parent_decks ! 1)
   \<and> 2 \<in> set (children_of ([Some 0, Some 1, None], [[Some 2], [Some 2], []]) 1)
   \<and> isChildOf (two_parent_decks ! 2) (two_parent_decks ! 1)
   \<and> 2 \<notin> set (roots_of ([Some 0, Some 1, None], [[Some 2], [Some 2], []]))"
proof -
  have run: "buildDeckHierarchy 3 two_parent_decks
      = Some ([Some 0, Some 1, None], [[Some 2], [Some 2], []])"
    by code_simp
  have len: "length two_parent_decks = 3"
    by (simp add: two_parent_decks_def)
  have mem: "2 \<in> set (children_of ([Some 0, Some 1, None], [[Some 2], [Some 2], []]) 1)"
    "0 \<in> set (roots_of ([Some 0, Some 1, None], [[Some 2], [Some 2], []]))"
    by (simp_all add: children_of_def roots_of_def set_values_def)
  from root_or_child [OF run] have
    top: "\<And>d. d \<in> set (roots_of ([Some 0, Some 1, None], [[Some 2], [Some 2], []]))
        \<Longrightarrow> \<not> (\<exists>other < length two_parent_decks.
              isChildOf (two_parent_decks ! d) (two_parent_decks ! other))"
    and low: "\<And>p c. p < length two_parent_decks
        \<Longrightarrow> c \<in> set (children_of ([Some 0, Some 1, None], [[Some 2], [Some 2], []]) p)
        \<Longrightarrow> isChildOf (two_parent_decks ! c) (two_parent_decks ! p)
            \<and> c \<notin> set (roots_of ([Some 0, Some 1, None], [[Some 2], [Some 2], []]))"
    by blast+
  have one: "(1::nat) < length two_parent_decks"
    unfolding len by simp
  have a: "\<not> isChildOf (two_parent_decks ! 0) (two_parent_decks ! 1)"
    using top [OF mem(2)] one by blast
  have b: "isChildOf (two_parent_decks ! 2) (two_parent_decks ! 1)
      \<and> 2 \<notin> set (roots_of ([Some 0, Some 1, None], [[Some 2], [Some 2], []]))"
    using low [OF one mem(1)] .
  show ?thesis
    using run mem a b by blast
qed

text \<open>
  C2 fails on the code. The patterns \<open>**/*\<close> (deck 0) and \<open>**/**\<close> (deck 1), with no
  cards, are each classified as a child of the other: after the build no deck is left
  at top level and each deck is in the \<^verbatim>\<open>children\<close> set of the other one.
\<close>

theorem cycle_of_two_decks:
  "isSubset ''**/*'' ''**/**'' = True \<and> isSubset ''**/**'' ''**/*'' = True
   \<and> buildDeckHierarchy (2 + k) cycle_decks = Some ([None, None], [[Some 1], [Some 0]])
   \<and> roots_of ([None, None], [[Some 1], [Some 0]]) = []
   \<and> children_of ([None, None], [[Some 1], [Some 0]]) 0 = [1]
   \<and> children_of ([None, None], [[Some 1], [Some 0]]) 1 = [0]"
proof -
  have "buildDeckHierarchy 2 cycle_decks = Some ([None, None], [[Some 1], [Some 0]])"
    by code_simp
  then have "buildDeckHierarchy (2 + k) cycle_decks = Some ([None, None], [[Some 1], [Some 0]])"
    by (rule buildDeckHierarchy_mono) simp
  moreover have "isSubset ''**/*'' ''**/**'' = True \<and> isSubset ''**/**'' ''**/*'' = True"
    by code_simp
  moreover have "roots_of ([None, None], [[Some 1], [Some 0]]) = []
      \<and> children_of ([None, None], [[Some 1], [Some 0]]) 0 = [1]
      \<and> children_of ([None, None], [[Some 1], [Some 0]]) 1 = [0]"
    by (simp add: roots_of_def children_of_def set_values_def)
  ultimately show ?thesis by simp
qed

text \<open>
  C3. Forest scenario: the five decks \<open>**\<close>, \<open>**/*\<close>, \<open>*\<close>, \<open>Work/**\<close>, \<open>README.md\<close>, with
  no cards. Given in this order (decks 0 to 4) and with five units of fuel or more, the
  build returns: deck 0 (\<open>**\<close>) is the only deck left at top level, its only child is
  deck 1 (\<open>**/*\<close>), whose children are decks 2 (\<open>*\<close>) and 3 (\<open>Work/**\<close>), and deck 4
  (\<open>README.md\<close>) is the child of deck 2 (\<open>*\<close>); decks 3 and 4 have no children. Given in
  any order \<open>ds\<close>, the build returns with enough fuel, \<open>**\<close> is the only deck left at top
  level, and the \<^verbatim>\<open>children\<close> sets hold exactly: \<open>**/*\<close> under \<open>**\<close>, \<open>*\<close> and \<open>Work/**\<close>
  under \<open>**/*\<close>, and \<open>README.md\<close> under \<open>*\<close>.
\<close>

theorem forest_scenario:
  "buildDeckHierarchy (5 + k) forest_decks
     = Some ([Some 0, None, None, None, None],
             [[Some 1], [Some 2, Some 3], [Some 4], [], []])
   \<and> (mset ds = mset forest_decks \<longrightarrow>
        (\<exists>fuel r. (\<forall>n. buildDeckHierarchy (fuel + n) ds = Some r)
           \<and> root_decks ds r = [emptyDeck ''**'']
           \<and> child_decks ds r
               = {(emptyDeck ''**'', emptyDeck ''**/*''),
                  (emptyDeck ''**/*'', emptyDeck ''*''),
                  (emptyDeck ''**/*'', emptyDeck ''Work/**''),
                  (emptyDeck ''*'', emptyDeck ''README.md'')}))"
proof -
  have "buildDeckHierarchy 5 forest_decks
     = Some ([Some 0, None, None, None, None],
             [[Some 1], [Some 2, Some 3], [Some 4], [], []])"
    by code_simp
  then have listed: "buildDeckHierarchy (5 + k) forest_decks
     = Some ([Some 0, None, None, None, None],
             [[Some 1], [Some 2, Some 3], [Some 4], [], []])"
    by (rule buildDeckHierarchy_mono) simp
  have any: "\<exists>fuel r. (\<forall>n. buildDeckHierarchy (fuel + n) ds = Some r)
           \<and> root_decks ds r = [emptyDeck ''**'']
           \<and> child_decks ds r
               = {(emptyDeck ''**'', emptyDeck ''**/*''),
                  (emptyDeck ''**/*'', emptyDeck ''*''),
                  (emptyDeck ''**/*'', emptyDeck ''Work/**''),
                  (emptyDeck ''*'', emptyDeck ''README.md'')}"
    if perm: "mset ds = mset forest_decks"
  proof -
    have sets: "set ds = set forest_decks"
      using perm by (metis set_mset_mset)
    have tr: "\<forall>a \<in> set ds. \<forall>b \<in> set ds. \<forall>c \<in> set ds.
        isChildOf a b \<longrightarrow> isChildOf b c \<longrightarrow> isChildOf a c"
      unfolding sets by (rule forest_transitive)
    from buildDeckHierarchy_terminates [OF transitive_ranked [OF tr]] obtain fuel r where
      run: "buildDeckHierarchy fuel ds = Some r"
      by blast
    have "mset (root_decks ds r)
        = mset (filter (\<lambda>x. \<not> (\<exists>y \<in> set forest_decks. isChildOf x y)) forest_decks)"
      unfolding root_decks_eq [OF run] sets by (simp add: perm)
    then have "mset (root_decks ds r) = {#emptyDeck ''**''#}"
      unfolding forest_roots by simp
    then have roots: "root_decks ds r = [emptyDeck ''**'']"
      by (cases "root_decks ds r") (auto split: if_splits)
    have "child_decks ds r = deck_cover (set forest_decks)"
      using child_decks_cover [OF tr run] sets by simp
    also have "\<dots> = {(forest_decks ! p, forest_decks ! c) | p c. (p, c) \<in> cover forest_decks}"
      by (rule cover_decks [symmetric])
    also have "\<dots> = {(emptyDeck ''**'', emptyDeck ''**/*''),
                  (emptyDeck ''**/*'', emptyDeck ''*''),
                  (emptyDeck ''**/*'', emptyDeck ''Work/**''),
                  (emptyDeck ''*'', emptyDeck ''README.md'')}"
    proof -
      have "{(forest_decks ! p, forest_decks ! c) | p c. (p, c) \<in> cover forest_decks}
          = (\<lambda>(p, c). (forest_decks ! p, forest_decks ! c)) ` cover forest_decks"
        by force
      then show ?thesis
        unfolding forest_cover by (simp add: forest_decks_def)
    qed
    finally show ?thesis using returns_from [OF run] roots by blast
  qed
  show ?thesis using listed any by blast
qed

theorem forest_scenario_witness:
  "mset forest_decks' = mset forest_decks
   \<and> buildDeckHierarchy 5 forest_decks'
       = Some ([None, None, None, None, Some 4],
               [[], [], [Some 0], [None, Some 1, Some 2], [None, None, None, Some 3]])
   \<and> root_decks forest_decks'
        ([None, None, None, None, Some 4],
         [[], [], [Some 0], [None, Some 1, Some 2], [None, None, None, Some 3]])
       = [emptyDeck ''**'']
   \<and> child_decks forest_decks'
        ([None, None, None, None, Some 4],
         [[], [], [Some 0], [None, Some 1, Some 2], [None, None, None, Some 3]])
       = {(emptyDeck ''**'', emptyDeck ''**/*''),
          (emptyDeck ''**/*'', emptyDeck ''*''),
          (emptyDeck ''**/*'', emptyDeck ''Work/**''),
          (emptyDeck ''*'', emptyDeck ''README.md'')}"
proof -
  have run: "buildDeckHierarchy 5 forest_decks'
       = Some ([None, None, None, None, Some 4],
               [[], [], [Some 0], [None, Some 1, Some 2], [None, None, None, Some 3]])"
    by code_simp
  from forest_scenario [of 0 forest_decks'] forest_decks'_perm obtain fuel r where
    r: "\<forall>n. buildDeckHierarchy (fuel + n) forest_decks' = Some r"
      "root_decks forest_decks' r = [emptyDeck ''**'']"
      "child_decks forest_decks' r
         = {(emptyDeck ''**'', emptyDeck ''**/*''),
            (emptyDeck ''**/*'', emptyDeck ''*''),
            (emptyDeck ''**/*'', emptyDeck ''Work/**''),
            (emptyDeck ''*'', emptyDeck ''README.md'')}"
    by blast
  from r(1) have "buildDeckHierarchy (fuel + 0) forest_decks' = Some r" by blast
  from buildDeckHierarchy_fuel [OF this run]
  have "([None, None, None, None, Some 4],
         [[], [], [Some 0], [None, Some 1, Some 2], [None, None, None, Some 3]]) = r" .
  then show ?thesis using r(2,3) run forest_decks'_perm by simp
qed

text \<open>
  C4, as stated: whenever one of the two decks has no cards, \<open>isChildOf\<close> is the pattern
  comparison. It fails when only the parent is empty: the deck \<open>*\<close> with one card is
  not a child of the empty deck \<open>**\<close>, although \<open>*\<close> is below \<open>**\<close> as a pattern.
\<close>

theorem zero_items_fallback_counterexample:
  "(cards (deckOf ''*'' [''a.md'']) = [] \<or> cards (emptyDeck ''**'') = [])
   \<and> isChildOf (deckOf ''*'' [''a.md'']) (emptyDeck ''**'')
       \<noteq> isSubset (pattern (deckOf ''*'' [''a.md''])) (pattern (emptyDeck ''**''))"
  by code_simp

text \<open>
  C4, amended: when one of the two decks has no cards, \<open>A\<close> is a child of \<open>B\<close> exactly when
  \<open>A\<close> itself has no cards and its pattern is below the pattern of \<open>B\<close>; a deck with cards
  is never a child of an empty deck (the cardinality guard comes first).
\<close>

theorem zero_items_fallback:
  "cards A = [] \<or> cards B = []
   \<Longrightarrow> isChildOf A B = (cards A = [] \<and> isSubset (pattern A) (pattern B))"
  by (auto simp add: isChildOf_def)

theorem zero_items_fallback_witness:
  "(cards (emptyDeck ''*'') = [] \<or> cards (deckOf ''**'' [''a.md'']) = [])
   \<and> isChildOf (emptyDeck ''*'') (deckOf ''**'' [''a.md''])
       = (cards (emptyDeck ''*'') = []
          \<and> isSubset (pattern (emptyDeck ''*'')) (pattern (deckOf ''**'' [''a.md''])))"
proof -
  have empty: "cards (emptyDeck ''*'') = [] \<or> cards (deckOf ''**'' [''a.md'']) = []"
    by (simp add: emptyDeck_def)
  show ?thesis
    using empty zero_items_fallback [OF empty] by simp
qed

text \<open>
  C5, as stated: two builds of the same decks, given in different orders, produce the
  same forest. It fails for the four decks \<open>Work/Math/**\<close> (no cards), \<open>*/*.md\<close>,
  \<open>Work/**\<close> and \<open>**\<close>: given in this order, the deck \<open>**\<close> ends with the children
  \<open>Work/Math/**\<close> and \<open>*/*.md\<close>; given in the order \<open>**\<close>, \<open>Work/**\<close>, \<open>Work/Math/**\<close>,
  \<open>*/*.md\<close>, it ends with the only child \<open>*/*.md\<close>.
\<close>

theorem build_order_counterexample:
  "mset order_decks' = mset order_decks
   \<and> buildDeckHierarchy 4 order_decks
       = Some ([None, None, None, Some 3], [[], [Some 2], [Some 0], [Some 0, Some 1]])
   \<and> buildDeckHierarchy 4 order_decks'
       = Some ([Some 0, None, None, None], [[None, Some 3], [Some 2], [], [Some 1]])
   \<and> pattern (order_decks ! 3) = ''**''
   \<and> map (\<lambda>d. pattern (order_decks ! d))
        (children_of ([None, None, None, Some 3], [[], [Some 2], [Some 0], [Some 0, Some 1]]) 3)
       = [''Work/Math/**'', ''*/*.md'']
   \<and> pattern (order_decks' ! 0) = ''**''
   \<and> map (\<lambda>d. pattern (order_decks' ! d))
        (children_of ([Some 0, None, None, None], [[None, Some 3], [Some 2], [], [Some 1]]) 0)
       = [''*/*.md'']"
proof -
  have "mset order_decks' = mset order_decks"
    by (simp add: order_decks_def order_decks'_def)
  moreover have "buildDeckHierarchy 4 order_decks
       = Some ([None, None, None, Some 3], [[], [Some 2], [Some 0], [Some 0, Some 1]])"
    by code_simp
  moreover have "buildDeckHierarchy 4 order_decks'
       = Some ([Some 0, None, None, None], [[None, Some 3], [Some 2], [], [Some 1]])"
    by code_simp
  moreover have "pattern (order_decks ! 3) = ''**''
   \<and> map (\<lambda>d. pattern (order_decks ! d))
        (children_of ([None, None, None, Some 3], [[], [Some 2], [Some 0], [Some 0, Some 1]]) 3)
       = [''Work/Math/**'', ''*/*.md'']"
    by (simp add: order_decks_def deckOf_def emptyDeck_def children_of_def set_values_def)
  moreover have "pattern (order_decks' ! 0) = ''**''
   \<and> map (\<lambda>d. pattern (order_decks' ! d))
        (children_of ([Some 0, None, None, None], [[None, Some 3], [Some 2], [], [Some 1]]) 0)
       = [''*/*.md'']"
    by (simp add: order_decks'_def deckOf_def emptyDeck_def children_of_def set_values_def)
  ultimately show ?thesis by blast
qed

text \<open>
  C5, amended: when \<open>isChildOf\<close> is transitive among the decks, the build returns on the
  decks in any order (with enough fuel), and two builds of the same decks that return,
  in any two orders and with any fuel, give the same forest: the same result for
  the same order, the same decks at top level, the same pairs (deck, deck in its
  \<^verbatim>\<open>children\<close> set), and at every deck the same decks in its \<^verbatim>\<open>children\<close> set.
\<close>

theorem build_order:
  assumes perm: "mset ds' = mset ds"
    and tr: "\<forall>a \<in> set ds. \<forall>b \<in> set ds. \<forall>c \<in> set ds.
        isChildOf a b \<longrightarrow> isChildOf b c \<longrightarrow> isChildOf a c"
  shows "(\<exists>fuel r r'. (\<forall>n. buildDeckHierarchy (fuel + n) ds = Some r)
            \<and> (\<forall>n. buildDeckHierarchy (fuel + n) ds' = Some r'))
     \<and> (\<forall>fuel fuel' r r'.
          buildDeckHierarchy fuel ds = Some r \<and> buildDeckHierarchy fuel' ds' = Some r'
          \<longrightarrow> (ds' = ds \<longrightarrow> r' = r)
              \<and> mset (root_decks ds' r') = mset (root_decks ds r)
              \<and> child_decks ds' r' = child_decks ds r
              \<and> (\<forall>p p'. p < length ds \<and> p' < length ds' \<and> ds' ! p' = ds ! p
                    \<longrightarrow> mset (child_decks_of ds' r' p') = mset (child_decks_of ds r p)))"
proof -
  have sets: "set ds' = set ds"
    using perm by (metis set_mset_mset)
  have tr': "\<forall>a \<in> set ds'. \<forall>b \<in> set ds'. \<forall>c \<in> set ds'.
        isChildOf a b \<longrightarrow> isChildOf b c \<longrightarrow> isChildOf a c"
    unfolding sets by (rule tr)
  from buildDeckHierarchy_terminates [OF transitive_ranked [OF tr]] obtain n r where
    run: "buildDeckHierarchy n ds = Some r"
    by blast
  from buildDeckHierarchy_terminates [OF transitive_ranked [OF tr']] obtain n' r' where
    run': "buildDeckHierarchy n' ds' = Some r'"
    by blast
  have "\<forall>k. buildDeckHierarchy (max n n' + k) ds = Some r"
    using buildDeckHierarchy_mono [OF run] by simp
  moreover have "\<forall>k. buildDeckHierarchy (max n n' + k) ds' = Some r'"
    using buildDeckHierarchy_mono [OF run'] by simp
  ultimately have returns: "\<exists>fuel r r'. (\<forall>n. buildDeckHierarchy (fuel + n) ds = Some r)
            \<and> (\<forall>n. buildDeckHierarchy (fuel + n) ds' = Some r')"
    by blast
  have same: "(ds' = ds \<longrightarrow> r' = r)
              \<and> mset (root_decks ds' r') = mset (root_decks ds r)
              \<and> child_decks ds' r' = child_decks ds r
              \<and> (\<forall>p p'. p < length ds \<and> p' < length ds' \<and> ds' ! p' = ds ! p
                    \<longrightarrow> mset (child_decks_of ds' r' p') = mset (child_decks_of ds r p))"
    if runs: "buildDeckHierarchy fuel ds = Some r \<and> buildDeckHierarchy fuel' ds' = Some r'"
    for fuel fuel' r r'
  proof -
    have a: "buildDeckHierarchy fuel ds = Some r" and b: "buildDeckHierarchy fuel' ds' = Some r'"
      using runs by simp_all
    have "r' = r" if "ds' = ds"
      using buildDeckHierarchy_fuel [OF a] b that by simp
    moreover have "mset (root_decks ds' r') = mset (root_decks ds r)"
      unfolding root_decks_eq [OF a] root_decks_eq [OF b] sets
      by (simp add: perm)
    moreover have "child_decks ds' r' = child_decks ds r"
      unfolding child_decks_cover [OF tr a] child_decks_cover [OF tr' b] sets ..
    moreover have "mset (child_decks_of ds' r' p') = mset (child_decks_of ds r p)"
      if "p < length ds \<and> p' < length ds' \<and> ds' ! p' = ds ! p" for p p'
      using child_decks_of_cover [OF tr a, of p] child_decks_of_cover [OF tr' b, of p'] that
      by (simp add: sets perm)
    ultimately show ?thesis by blast
  qed
  show ?thesis using returns same by blast
qed

theorem build_order_witness:
  "mset forest_decks' = mset forest_decks
   \<and> buildDeckHierarchy 5 forest_decks
       = Some ([Some 0, None, None, None, None],
               [[Some 1], [Some 2, Some 3], [Some 4], [], []])
   \<and> buildDeckHierarchy 5 forest_decks'
       = Some ([None, None, None, None, Some 4],
               [[], [], [Some 0], [None, Some 1, Some 2], [None, None, None, Some 3]])
   \<and> mset (root_decks forest_decks'
        ([None, None, None, None, Some 4],
         [[], [], [Some 0], [None, Some 1, Some 2], [None, None, None, Some 3]]))
       = mset (root_decks forest_decks
        ([Some 0, None, None, None, None],
         [[Some 1], [Some 2, Some 3], [Some 4], [], []]))
   \<and> child_decks forest_decks'
        ([None, None, None, None, Some 4],
         [[], [], [Some 0], [None, Some 1, Some 2], [None, None, None, Some 3]])
       = child_decks forest_decks
        ([Some 0, None, None, None, None],
         [[Some 1], [Some 2, Some 3], [Some 4], [], []])
   \<and> forest_decks' ! 3 = forest_decks ! 1
   \<and> mset (child_decks_of forest_decks'
        ([None, None, None, None, Some 4],
         [[], [], [Some 0], [None, Some 1, Some 2], [None, None, None, Some 3]]) 3)
       = mset (child_decks_of forest_decks
        ([Some 0, None, None, None, None],
         [[Some 1], [Some 2, Some 3], [Some 4], [], []]) 1)"
proof -
  have run: "buildDeckHierarchy 5 forest_decks
       = Some ([Some 0, None, None, None, None],
               [[Some 1], [Some 2, Some 3], [Some 4], [], []])"
    by code_simp
  have run': "buildDeckHierarchy 5 forest_decks'
       = Some ([None, None, None, None, Some 4],
               [[], [], [Some 0], [None, Some 1, Some 2], [None, None, None, Some 3]])"
    by code_simp
  have node: "1 < length forest_decks \<and> 3 < length forest_decks'
      \<and> forest_decks' ! 3 = forest_decks ! 1"
    by (simp add: forest_decks_def forest_decks'_def)
  show ?thesis
    using build_order [OF forest_decks'_perm forest_transitive] run run' forest_decks'_perm node
    by blast
qed

text \<open>
  C6. The pattern-relation scenarios: \<open>isSubset\<close> returns true for
  (Work/Math/**, Work/**), (*, **) and (README.md, *.md), and false for
  (Work/**, Work/Math/**), (**, **), (**, *), (*.md, *.js) and (Workshop/**, Work/**).
\<close>

theorem isSubset_scenarios:
  "isSubset ''Work/Math/**'' ''Work/**'' = True
   \<and> isSubset ''Work/**'' ''Work/Math/**'' = False
   \<and> isSubset ''**'' ''**'' = False
   \<and> isSubset ''*'' ''**'' = True
   \<and> isSubset ''**'' ''*'' = False
   \<and> isSubset ''README.md'' ''*.md'' = True
   \<and> isSubset ''*.md'' ''*.js'' = False
   \<and> isSubset ''Workshop/**'' ''Work/**'' = False"
  by code_simp

text \<open>
  C7. Cardinality guard: a deck with strictly more cards than another one is never
  classified as its child.
\<close>

theorem cardinality_guard:
  "length (cards A) > length (cards B) \<Longrightarrow> \<not> isChildOf A B"
  by (simp add: isChildOf_def)

theorem cardinality_guard_witness:
  "length (cards (deckOf ''*'' [''a.md''])) > length (cards (emptyDeck ''**''))
   \<and> \<not> isChildOf (deckOf ''*'' [''a.md'']) (emptyDeck ''**'')"
proof -
  have more: "length (cards (deckOf ''*'' [''a.md''])) > length (cards (emptyDeck ''**''))"
    by (simp add: deckOf_def emptyDeck_def)
  show ?thesis
    using more cardinality_guard [OF more] by simp
qed

text \<open>
  C8. Equal-set tie-break: for two decks with cards, the same number of cards and the
  same set of card paths, \<open>isChildOf\<close> is the pattern comparison; and when the patterns
  are related in neither direction, neither deck is in the \<^verbatim>\<open>children\<close> set of the
  other after a build of any list of decks that holds them.
\<close>

theorem equal_sets_tie_break:
  assumes "cards A \<noteq> []" and "cards B \<noteq> []"
    and "length (cards A) = length (cards B)"
    and "set (map path (cards A)) = set (map path (cards B))"
  shows "isChildOf A B = isSubset (pattern A) (pattern B)
     \<and> (\<not> isSubset (pattern A) (pattern B) \<and> \<not> isSubset (pattern B) (pattern A)
          \<and> buildDeckHierarchy fuel ds = Some r
          \<and> i < length ds \<and> j < length ds \<and> ds ! i = A \<and> ds ! j = B
        \<longrightarrow> i \<notin> set (children_of r j) \<and> j \<notin> set (children_of r i))"
proof -
  have ab: "isChildOf A B = isSubset (pattern A) (pattern B)"
    using assms by (simp add: isChildOf_def Let_def)
  have ba: "isChildOf B A = isSubset (pattern B) (pattern A)"
    using assms by (simp add: isChildOf_def Let_def)
  have "i \<notin> set (children_of r j) \<and> j \<notin> set (children_of r i)"
    if none: "\<not> isSubset (pattern A) (pattern B)" "\<not> isSubset (pattern B) (pattern A)"
      and run: "buildDeckHierarchy fuel ds = Some r"
      and ids: "i < length ds" "j < length ds" "ds ! i = A" "ds ! j = B"
  proof -
    have ok: "heap_ok ds (snd r)"
      using buildDeckHierarchy_ok(1) [OF run] .
    then have len: "length (snd r) = length ds"
      by (simp add: heap_ok_def)
    have "(j, i) \<notin> edges (snd r)"
      using heap_ok_edge [OF ok, of j i] ids ab none by auto
    moreover have "(i, j) \<notin> edges (snd r)"
      using heap_ok_edge [OF ok, of i j] ids ba none by auto
    ultimately show ?thesis
      using ids len by (simp add: children_of_edges)
  qed
  then show ?thesis using ab by blast
qed

theorem equal_sets_tie_break_witness:
  "cards (tie_decks ! 0) \<noteq> [] \<and> cards (tie_decks ! 1) \<noteq> []
   \<and> length (cards (tie_decks ! 0)) = length (cards (tie_decks ! 1))
   \<and> set (map path (cards (tie_decks ! 0))) = set (map path (cards (tie_decks ! 1)))
   \<and> isSubset (pattern (tie_decks ! 0)) (pattern (tie_decks ! 1)) = False
   \<and> isSubset (pattern (tie_decks ! 1)) (pattern (tie_decks ! 0)) = False
   \<and> buildDeckHierarchy 3 tie_decks = Some ([None, None, Some 2], [[], [], [Some 0, Some 1]])
   \<and> isChildOf (tie_decks ! 0) (tie_decks ! 1) = False
   \<and> 0 \<notin> set (children_of ([None, None, Some 2], [[], [], [Some 0, Some 1]]) 1)
   \<and> 1 \<notin> set (children_of ([None, None, Some 2], [[], [], [Some 0, Some 1]]) 0)"
proof -
  have h1: "cards (tie_decks ! 0) \<noteq> []" and h2: "cards (tie_decks ! 1) \<noteq> []"
    and h3: "length (cards (tie_decks ! 0)) = length (cards (tie_decks ! 1))"
    and h4: "set (map path (cards (tie_decks ! 0))) = set (map path (cards (tie_decks ! 1)))"
    by (simp_all add: tie_decks_def deckOf_def)
  have p: "isSubset (pattern (tie_decks ! 0)) (pattern (tie_decks ! 1)) = False"
    "isSubset (pattern (tie_decks ! 1)) (pattern (tie_decks ! 0)) = False"
    by code_simp+
  have run: "buildDeckHierarchy 3 tie_decks = Some ([None, None, Some 2], [[], [], [Some 0, Some 1]])"
    by code_simp
  have ids: "0 < length tie_decks" "1 < length tie_decks"
    by (simp_all add: tie_decks_def)
  note t = equal_sets_tie_break [OF h1 h2 h3 h4, of 3 tie_decks
      "([None, None, Some 2], [[], [], [Some 0, Some 1]])" 0 1]
  have c: "isChildOf (tie_decks ! 0) (tie_decks ! 1) = False"
    using t p by blast
  have d: "0 \<notin> set (children_of ([None, None, Some 2], [[], [], [Some 0, Some 1]]) 1)
      \<and> 1 \<notin> set (children_of ([None, None, Some 2], [[], [], [Some 0, Some 1]]) 0)"
    using t p run ids by blast
  show ?thesis
    using h1 h2 h3 h4 p run c d by blast
qed

text \<open>
  C9, as stated: when \<open>A\<close> is a child of \<open>B\<close> and of \<open>C\<close>, and \<open>B\<close> is a child of \<open>C\<close>, then
  after the build \<open>A\<close> is nested under \<open>B\<close> and is not in the \<^verbatim>\<open>children\<close> set of \<open>C\<close>. It
  fails for \<open>A\<close> = \<open>Work/Math/**\<close> (deck 0), \<open>B\<close> = \<open>Work/**\<close> (deck 2) and \<open>C\<close> = \<open>**\<close>
  (deck 3) of the four decks above: \<open>A\<close> stays in the \<^verbatim>\<open>children\<close> set of \<open>C\<close>, because \<open>B\<close>
  is put under \<open>*/*.md\<close> (deck 1), of which \<open>A\<close> is not a child.
\<close>

theorem transitive_nesting_counterexample:
  "isChildOf (order_decks ! 0) (order_decks ! 2)
   \<and> isChildOf (order_decks ! 2) (order_decks ! 3)
   \<and> isChildOf (order_decks ! 0) (order_decks ! 3)
   \<and> buildDeckHierarchy 4 order_decks
       = Some ([None, None, None, Some 3], [[], [Some 2], [Some 0], [Some 0, Some 1]])
   \<and> 0 \<in> set (children_of
                 ([None, None, None, Some 3], [[], [Some 2], [Some 0], [Some 0, Some 1]]) 3)"
proof -
  have "isChildOf (order_decks ! 0) (order_decks ! 2)
     \<and> isChildOf (order_decks ! 2) (order_decks ! 3)
     \<and> isChildOf (order_decks ! 0) (order_decks ! 3)"
    by code_simp
  moreover have "buildDeckHierarchy 4 order_decks
       = Some ([None, None, None, Some 3], [[], [Some 2], [Some 0], [Some 0, Some 1]])"
    by code_simp
  moreover have "0 \<in> set (children_of
                 ([None, None, None, Some 3], [[], [Some 2], [Some 0], [Some 0, Some 1]]) 3)"
    by (simp add: children_of_def set_values_def)
  ultimately show ?thesis by blast
qed

text \<open>
  C9, amended: when \<open>isChildOf\<close> is transitive among the decks, \<open>A\<close> is a child of \<open>B\<close> and
  \<open>B\<close> is a child of \<open>C\<close> (so that \<open>A\<close> is a child of \<open>C\<close> as well), the build returns with
  enough fuel, and after a build that returns \<open>A\<close> is nested under \<open>B\<close>, directly or
  deeper, and \<open>A\<close> is not in the \<^verbatim>\<open>children\<close> set of \<open>C\<close>.
\<close>

theorem transitive_nesting:
  assumes tr: "\<forall>x \<in> set ds. \<forall>y \<in> set ds. \<forall>z \<in> set ds.
        isChildOf x y \<longrightarrow> isChildOf y z \<longrightarrow> isChildOf x z"
    and ids: "a < length ds" "b < length ds" "c < length ds"
    and rel: "isChildOf (ds ! a) (ds ! b)" "isChildOf (ds ! b) (ds ! c)"
  shows "isChildOf (ds ! a) (ds ! c)
     \<and> (\<exists>fuel r. \<forall>n. buildDeckHierarchy (fuel + n) ds = Some r)
     \<and> (\<forall>fuel r. buildDeckHierarchy fuel ds = Some r
          \<longrightarrow> nested_under r a b \<and> a \<notin> set (children_of r c))"
proof -
  note rk = transitive_ranked [OF tr]
  have ac: "isChildOf (ds ! a) (ds ! c)"
    using tr ids rel by (meson nth_mem)
  from buildDeckHierarchy_terminates [OF rk] obtain n r where
    "buildDeckHierarchy n ds = Some r"
    by blast
  then have returns: "\<exists>fuel r. \<forall>n. buildDeckHierarchy (fuel + n) ds = Some r"
    using returns_from by blast
  have rels: "(b, a) \<in> child_rel ds" "(c, b) \<in> child_rel ds"
    using ids rel by (simp_all add: child_rel_def)
  have after: "nested_under r a b \<and> a \<notin> set (children_of r c)"
    if run: "buildDeckHierarchy fuel ds = Some r" for fuel r
  proof -
    have len: "length (snd r) = length ds"
      using buildDeckHierarchy_ok(1) [OF run] by (simp add: heap_ok_def)
    have "nested_under r a b"
      unfolding nested_under_child_rel [OF rk run] using rels(1) by blast
    moreover have "(c, a) \<notin> cover ds"
      using rels by (auto simp: cover_def)
    then have "(c, a) \<notin> edges (snd r)"
      using buildDeckHierarchy_cover [OF rk transitive_child_rel [OF tr] run] by simp
    then have "a \<notin> set (children_of r c)"
      using ids(3) len by (simp add: children_of_edges)
    ultimately show ?thesis by blast
  qed
  show ?thesis using ac returns after by blast
qed

theorem transitive_nesting_witness:
  "isChildOf (forest_decks' ! 0) (forest_decks' ! 2)
   \<and> isChildOf (forest_decks' ! 2) (forest_decks' ! 3)
   \<and> isChildOf (forest_decks' ! 0) (forest_decks' ! 3)
   \<and> buildDeckHierarchy 5 forest_decks'
       = Some ([None, None, None, None, Some 4],
               [[], [], [Some 0], [None, Some 1, Some 2], [None, None, None, Some 3]])
   \<and> nested_under
        ([None, None, None, None, Some 4],
         [[], [], [Some 0], [None, Some 1, Some 2], [None, None, None, Some 3]]) 0 2
   \<and> 0 \<notin> set (children_of
        ([None, None, None, None, Some 4],
         [[], [], [Some 0], [None, Some 1, Some 2], [None, None, None, Some 3]]) 3)"
proof -
  have rel: "isChildOf (forest_decks' ! 0) (forest_decks' ! 2)"
    "isChildOf (forest_decks' ! 2) (forest_decks' ! 3)"
    by code_simp+
  have run: "buildDeckHierarchy 5 forest_decks'
       = Some ([None, None, None, None, Some 4],
               [[], [], [Some 0], [None, Some 1, Some 2], [None, None, None, Some 3]])"
    by code_simp
  have ids: "0 < length forest_decks'" "2 < length forest_decks'" "3 < length forest_decks'"
    by (simp_all add: forest_decks'_def)
  show ?thesis
    using transitive_nesting [OF forest_transitive' ids rel] rel run by blast
qed

text \<open>
  C10 fails on the code. With the include patterns \<open>**/*\<close>, \<open>**/**\<close> and \<open>**/x\<close> and a
  vault without files, \<^verbatim>\<open>buildDecks\<close> returns neither decks nor errors, whatever the
  fuel: the first two decks are in the \<^verbatim>\<open>children\<close> set of each other, and adding the
  third one to either of them calls \<^verbatim>\<open>addChild\<close> on the two in turn without end.
\<close>

theorem buildDecks_overflow:
  "buildDecks fuel minimatch metadataCache validateAndParseFrontmatter () [] overflow_settings
     = None"
proof -
  have "buildDecks_patterns minimatch
          (\<lambda>file. Card_init validateAndParseFrontmatter () file (metadataCache file)) []
          (exclude_patterns overflow_settings) (include_patterns overflow_settings) ([], [], [])
        = (overflow_decks, [], [])"
    by (simp add: overflow_settings_def overflow_decks_def emptyDeck_def filterFiles_def)
  then show ?thesis
    by (simp add: buildDecks_def overflow_hierarchy)
qed

text \<open>
  When the hierarchy build returns, so does \<^verbatim>\<open>buildDecks\<close>, as follows. For a vault
  whose files have distinct paths, let \<open>fs\<close> be the files that pass \<^verbatim>\<open>filterFiles\<close> for
  some include pattern and that \<^verbatim>\<open>Card.init\<close> rejects: the result is the decks when
  there is no such file, and otherwise the errors of these files, not empty and each
  file's errors once.
\<close>

lemma buildDecks_returned:
  assumes run: "buildDecks fuel minimatch metadataCache validateAndParseFrontmatter createEmptyCard
      allFiles settings = Some res"
    and paths: "distinct (map file_path allFiles)"
  shows "\<exists>fs. distinct fs
      \<and> set fs = {f. (\<exists>pat \<in> set (include_patterns settings).
                      f \<in> set (filterFiles minimatch allFiles [pat] (exclude_patterns settings)))
                  \<and> isl (Card_init validateAndParseFrontmatter createEmptyCard f (metadataCache f))}
      \<and> (case res of
            Inl allErrors \<Rightarrow>
              fs \<noteq> [] \<and> allErrors \<noteq> []
              \<and> allErrors = concat (map (\<lambda>f. projl (Card_init validateAndParseFrontmatter
                                  createEmptyCard f (metadataCache f))) fs)
          | Inr decks \<Rightarrow> fs = [])"
proof -
  let ?init = "\<lambda>file. Card_init validateAndParseFrontmatter createEmptyCard file (metadataCache file)"
  obtain decks errs seen where
    p: "buildDecks_patterns minimatch ?init allFiles (exclude_patterns settings)
          (include_patterns settings) ([], [], []) = (decks, errs, seen)"
    by (metis prod_cases3)
  have inj: "inj_on file_path (set allFiles)"
    using paths by (simp add: distinct_map)
  have l0: "errors_logged ?init {} [] []"
    by (simp add: errors_logged_def set_values_def)
  from buildDecks_patterns_logged [OF p inj _ l0] obtain fs where
    fs: "distinct (map file_path fs)"
      "set fs = {f \<in> (\<Union>pat \<in> set (include_patterns settings).
                  set (filterFiles minimatch allFiles [pat] (exclude_patterns settings))).
                isl (?init f)}"
      "errs = concat (map (\<lambda>f. projl (?init f)) fs)"
    unfolding errors_logged_def by auto
  have d: "distinct fs" using fs(1) by (simp add: distinct_map)
  have ne: "errs \<noteq> []" if "fs \<noteq> []"
  proof -
    from that obtain f where f: "f \<in> set fs" by (cases fs) auto
    then have "isl (?init f)" using fs(2) by blast
    then obtain e where e: "?init f = Inl e" by (cases "?init f") auto
    then have "e \<noteq> []" by (rule Card_init_errors)
    then show ?thesis using fs(3) f e by force
  qed
  have e: "errs = [] \<Longrightarrow> fs = []" using ne by blast
  from run p obtain topLevel where
    res: "res = (if length errs = 0 then Inr (decks, topLevel) else Inl errs)"
    by (auto simp: buildDecks_def Let_def split: option.splits)
  show ?thesis
  proof (intro exI [of _ fs] conjI)
    show "distinct fs" by (rule d)
    show "set fs = {f. (\<exists>pat \<in> set (include_patterns settings).
                      f \<in> set (filterFiles minimatch allFiles [pat] (exclude_patterns settings)))
                  \<and> isl (?init f)}"
      using fs(2) by auto
    show "case res of
            Inl allErrors \<Rightarrow>
              fs \<noteq> [] \<and> allErrors \<noteq> []
              \<and> allErrors = concat (map (\<lambda>f. projl (?init f)) fs)
          | Inr decks \<Rightarrow> fs = []"
    proof (cases "errs = []")
      case True
      then show ?thesis using res e by simp
    next
      case False
      then have "fs \<noteq> []" using fs(3) by auto
      then show ?thesis using res False fs(3) by simp
    qed
  qed
qed

end
